theory Spec2Isabelle
  imports Complex_Main
begin

section \<open>JavaScript numbers\<close>

text \<open>
  The library computes with JavaScript numbers, which are IEEE 754 doubles, and keeps its
  buffers in \<open>Float32Array\<close>s. A number is a finite real, one of the two infinities, or
  NaN. Every arithmetic operation rounds its exact result to the nearest double, ties to
  even, and overflows to an infinity; a store into a \<open>Float32Array\<close> rounds to the
  nearest single in the same way. The sign of zero is not modelled. Counts and array
  indices are natural numbers and enter the arithmetic through \<open>num\<close>; a third of a
  length and the sampling step are computed on the naturals, which is what the doubles
  of the source give for safe integers.
\<close>

datatype jsnum = Fin real | PInf | NInf | NaN

text \<open>
  Rounding to the nearest number of precision \<open>p\<close> with the least exponent \<open>emin\<close>:
  \<open>round_even\<close> is the nearest integer, ties to even; \<open>nearest k a\<close> is the nearest
  multiple of \<open>2 ^ k\<close>; \<open>ulp_exp\<close> is the exponent of the unit in the last place at \<open>a\<close>,
  which stays at its least value through the subnormal range; a result of magnitude
  \<open>2 ^ emax\<close> or more is an infinity.
\<close>

definition round_even :: "real \<Rightarrow> int" where
  "round_even y =
     (let f = \<lfloor>y\<rfloor>; d = y - of_int f
      in if d < 1 / 2 then f else if 1 / 2 < d then f + 1 else if even f then f else f + 1)"

definition nearest :: "int \<Rightarrow> real \<Rightarrow> real" where
  "nearest k a = of_int (round_even (a / 2 powr of_int k)) * 2 powr of_int k"

definition ulp_exp :: "nat \<Rightarrow> int \<Rightarrow> real \<Rightarrow> int" where
  "ulp_exp p emin a = max emin \<lfloor>log 2 \<bar>a\<bar>\<rfloor> - int p + 1"

definition round_to :: "nat \<Rightarrow> int \<Rightarrow> int \<Rightarrow> real \<Rightarrow> jsnum" where
  "round_to p emin emax a =
     (if a = 0 then Fin 0
      else
       (let r = nearest (ulp_exp p emin a) a
        in if 2 powr of_int emax \<le> \<bar>r\<bar> then (if 0 < a then PInf else NInf) else Fin r))"

text \<open>Doubles have 53 bits and exponents from \<open>-1022\<close>, singles 24 bits from \<open>-126\<close>.\<close>

definition dbl :: "real \<Rightarrow> jsnum" where
  "dbl = round_to 53 (- 1022) 1024"

definition f32 :: "real \<Rightarrow> jsnum" where
  "f32 = round_to 24 (- 126) 128"

text \<open>The value a \<open>Float32Array\<close> keeps of a number stored into it.\<close>

fun fround :: "jsnum \<Rightarrow> jsnum" where
  "fround (Fin a) = f32 a"
| "fround x = x"

abbreviation num :: "nat \<Rightarrow> jsnum" where
  "num n \<equiv> Fin (real n)"

fun sign_of :: "jsnum \<Rightarrow> real" where
  "sign_of (Fin a) = sgn a"
| "sign_of PInf = 1"
| "sign_of NInf = - 1"
| "sign_of NaN = 0"

definition inf_of :: "real \<Rightarrow> jsnum" where
  "inf_of s = (if 0 < s then PInf else if s < 0 then NInf else NaN)"

instantiation jsnum :: "{plus, minus, uminus, times, inverse, ord}"
begin

fun plus_jsnum :: "jsnum \<Rightarrow> jsnum \<Rightarrow> jsnum" where
  "plus_jsnum NaN _ = NaN"
| "plus_jsnum _ NaN = NaN"
| "plus_jsnum (Fin a) (Fin b) = dbl (a + b)"
| "plus_jsnum PInf NInf = NaN"
| "plus_jsnum NInf PInf = NaN"
| "plus_jsnum PInf _ = PInf"
| "plus_jsnum _ PInf = PInf"
| "plus_jsnum NInf _ = NInf"
| "plus_jsnum _ NInf = NInf"

fun uminus_jsnum :: "jsnum \<Rightarrow> jsnum" where
  "uminus_jsnum (Fin a) = Fin (- a)"
| "uminus_jsnum PInf = NInf"
| "uminus_jsnum NInf = PInf"
| "uminus_jsnum NaN = NaN"

definition minus_jsnum :: "jsnum \<Rightarrow> jsnum \<Rightarrow> jsnum" where
  "minus_jsnum x y = x + (- y)"

fun times_jsnum :: "jsnum \<Rightarrow> jsnum \<Rightarrow> jsnum" where
  "times_jsnum NaN _ = NaN"
| "times_jsnum _ NaN = NaN"
| "times_jsnum (Fin a) (Fin b) = dbl (a * b)"
| "times_jsnum x y = inf_of (sign_of x * sign_of y)"

fun divide_jsnum :: "jsnum \<Rightarrow> jsnum \<Rightarrow> jsnum" where
  "divide_jsnum NaN _ = NaN"
| "divide_jsnum _ NaN = NaN"
| "divide_jsnum (Fin a) (Fin b) = (if b = 0 then inf_of a else dbl (a / b))"
| "divide_jsnum (Fin a) _ = Fin 0"
| "divide_jsnum PInf (Fin b) = (if b < 0 then NInf else PInf)"
| "divide_jsnum NInf (Fin b) = (if b < 0 then PInf else NInf)"
| "divide_jsnum _ _ = NaN"

definition inverse_jsnum :: "jsnum \<Rightarrow> jsnum" where
  "inverse_jsnum x = divide (Fin 1) x"

fun less_jsnum :: "jsnum \<Rightarrow> jsnum \<Rightarrow> bool" where
  "less_jsnum NaN _ = False"
| "less_jsnum _ NaN = False"
| "less_jsnum (Fin a) (Fin b) = (a < b)"
| "less_jsnum _ NInf = False"
| "less_jsnum PInf _ = False"
| "less_jsnum _ _ = True"

fun less_eq_jsnum :: "jsnum \<Rightarrow> jsnum \<Rightarrow> bool" where
  "less_eq_jsnum NaN _ = False"
| "less_eq_jsnum _ NaN = False"
| "less_eq_jsnum (Fin a) (Fin b) = (a \<le> b)"
| "less_eq_jsnum NInf _ = True"
| "less_eq_jsnum _ PInf = True"
| "less_eq_jsnum _ _ = False"

instance ..

end

text \<open>
  The functions of \<open>Math\<close>. The square root is correctly rounded, as IEEE 754 requires of
  it. The language leaves the accuracy of \<open>Math.sin\<close>, \<open>Math.cos\<close> and \<open>Math.pow\<close> to the
  engine; \<open>Math_sin\<close> and \<open>Math_cos\<close> are the correctly rounded ones, and \<open>Math.pow(x, 2)\<close>,
  the only power the library takes, is the rounded product \<open>x * x\<close>.
\<close>

fun Math_sqrt :: "jsnum \<Rightarrow> jsnum" where
  "Math_sqrt (Fin a) = (if a < 0 then NaN else dbl (sqrt a))"
| "Math_sqrt PInf = PInf"
| "Math_sqrt _ = NaN"

fun Math_sin :: "jsnum \<Rightarrow> jsnum" where
  "Math_sin (Fin a) = dbl (sin a)"
| "Math_sin _ = NaN"

fun Math_cos :: "jsnum \<Rightarrow> jsnum" where
  "Math_cos (Fin a) = dbl (cos a)"
| "Math_cos _ = NaN"

fun Math_floor :: "jsnum \<Rightarrow> jsnum" where
  "Math_floor (Fin a) = Fin (of_int \<lfloor>a\<rfloor>)"
| "Math_floor x = x"

fun Math_ceil :: "jsnum \<Rightarrow> jsnum" where
  "Math_ceil (Fin a) = Fin (of_int \<lceil>a\<rceil>)"
| "Math_ceil x = x"

fun Math_max :: "jsnum \<Rightarrow> jsnum \<Rightarrow> jsnum" where
  "Math_max NaN _ = NaN"
| "Math_max _ NaN = NaN"
| "Math_max x y = (if x < y then y else x)"

definition Math_pow2 :: "jsnum \<Rightarrow> jsnum" where
  "Math_pow2 x = x * x"

text \<open>
  Truthiness of a number and the idiom \<open>v || d\<close> on an optional number: \<open>undefined\<close>
  (\<open>None\<close>), \<open>0\<close> and NaN give the default.
\<close>

fun truthy :: "jsnum \<Rightarrow> bool" where
  "truthy (Fin a) = (a \<noteq> 0)"
| "truthy NaN = False"
| "truthy _ = True"

fun or_default :: "jsnum option \<Rightarrow> jsnum \<Rightarrow> jsnum" where
  "or_default None d = d"
| "or_default (Some v) d = (if truthy v then v else d)"

fun or_count :: "nat option \<Rightarrow> nat \<Rightarrow> nat" where
  "or_count None d = d"
| "or_count (Some n) d = (if n = 0 then d else n)"

text \<open>
  Three consecutive stores \<open>a[index] = x; a[index + 1] = y; a[index + 2] = z\<close> into a
  \<open>Float32Array\<close>: each value is rounded to a single. A store outside a typed array is
  ignored, which is what \<open>list_update\<close> does; a read outside one gives \<open>undefined\<close>,
  which every use below turns into NaN.
\<close>

definition store3 :: "jsnum list \<Rightarrow> nat \<Rightarrow> jsnum \<Rightarrow> jsnum \<Rightarrow> jsnum \<Rightarrow> jsnum list" where
  "store3 a index x y z =
     a[index := fround x, index + 1 := fround y, index + 2 := fround z]"

definition rd :: "jsnum list \<Rightarrow> nat \<Rightarrow> jsnum" where
  "rd a i = (if i < length a then a ! i else NaN)"

section \<open>SphereGenerator\<close>

text \<open>\<open>ShapeOptions\<close>: \<open>count\<close> and \<open>params?.radius\<close>, both optional.\<close>

record ShapeOptions =
  count :: "nat option"
  radius :: "jsnum option"

text \<open>
  The body of the loop of \<open>generate\<close>, for the index \<open>i\<close>. The functions the engine has
  for \<open>Math.cos\<close> and \<open>Math.sin\<close> are parameters of it.
\<close>

definition generate_body ::
  "(jsnum \<Rightarrow> jsnum) \<Rightarrow> (jsnum \<Rightarrow> jsnum) \<Rightarrow> nat \<Rightarrow> jsnum \<Rightarrow> jsnum \<Rightarrow> nat \<Rightarrow> jsnum list
    \<Rightarrow> jsnum list" where
  "generate_body cosine sine cnt rad goldenAngle i positions =
     (let y = Fin 1 - (num i / (num cnt - Fin 1)) * Fin 2;
          radiusAtY = Math_sqrt (Fin 1 - y * y);
          theta = goldenAngle * num i;
          x = cosine theta * radiusAtY;
          z = sine theta * radiusAtY;
          index = i * 3
      in store3 positions index (x * rad) (y * rad) (z * rad))"

definition generate_with ::
  "(jsnum \<Rightarrow> jsnum) \<Rightarrow> (jsnum \<Rightarrow> jsnum) \<Rightarrow> ShapeOptions \<Rightarrow> jsnum list" where
  "generate_with cosine sine opts =
     (let cnt = or_count (count opts) 1000;
          rad = or_default (radius opts) (Fin 1);
          positions = replicate (cnt * 3) (Fin 0);
          goldenAngle = dbl pi * (Fin 3 - Math_sqrt (Fin 5))
      in fold (generate_body cosine sine cnt rad goldenAngle) [0..<cnt] positions)"

text \<open>\<open>generate\<close> on an engine whose \<open>Math.cos\<close> and \<open>Math.sin\<close> are correctly rounded.\<close>

definition generate :: "ShapeOptions \<Rightarrow> jsnum list" where
  "generate opts = generate_with Math_cos Math_sin opts"

text \<open>
  \<open>Math.random()\<close> is a sequence of draws \<open>rand 0, rand 1, ...\<close>, which are doubles, and a
  cursor into it. The \<open>do ... while\<close> loop of \<open>generateVolume\<close> has no bound in the source,
  so it is a partial function: \<open>None\<close> is the loop that never ends.
\<close>

partial_function (option) draw_in_sphere ::
  "(nat \<Rightarrow> real) \<Rightarrow> nat \<Rightarrow> ((jsnum \<times> jsnum \<times> jsnum) \<times> nat) option" where
  "draw_in_sphere rand p =
     (let x = Fin (rand p) * Fin 2 - Fin 1;
          y = Fin (rand (p + 1)) * Fin 2 - Fin 1;
          z = Fin (rand (p + 2)) * Fin 2 - Fin 1
      in if x * x + y * y + z * z > Fin 1 then draw_in_sphere rand (p + 3)
         else Some ((x, y, z), p + 3))"

fun generateVolume_loop ::
  "(nat \<Rightarrow> real) \<Rightarrow> jsnum \<Rightarrow> nat list \<Rightarrow> jsnum list \<times> nat \<Rightarrow> (jsnum list \<times> nat) option" where
  "generateVolume_loop rand rad [] st = Some st"
| "generateVolume_loop rand rad (i # is) (positions, p) =
     (case draw_in_sphere rand p of
        None \<Rightarrow> None
      | Some ((x, y, z), p') \<Rightarrow>
          generateVolume_loop rand rad is
            (store3 positions (i * 3) (x * rad) (y * rad) (z * rad), p'))"

definition generateVolume ::
  "(nat \<Rightarrow> real) \<Rightarrow> ShapeOptions \<Rightarrow> nat \<Rightarrow> (jsnum list \<times> nat) option" where
  "generateVolume rand opts p =
     (let cnt = or_count (count opts) 1000;
          rad = or_default (radius opts) (Fin 1);
          positions = replicate (cnt * 3) (Fin 0)
      in generateVolume_loop rand rad [0..<cnt] (positions, p))"

text \<open>
  Whether the round of three draws at a cursor is accepted, by the test of the loop
  itself, and three sources of draws: one whose every round is rejected (every draw is
  \<open>63/64\<close>), one whose every draw is \<open>1/2\<close>, the centre of the cube, and one whose
  first round is rejected and every later draw is \<open>1/2\<close>.
\<close>

definition in_ball :: "(nat \<Rightarrow> real) \<Rightarrow> nat \<Rightarrow> bool" where
  "in_ball rand p =
     (let x = Fin (rand p) * Fin 2 - Fin 1;
          y = Fin (rand (p + 1)) * Fin 2 - Fin 1;
          z = Fin (rand (p + 2)) * Fin 2 - Fin 1
      in \<not> x * x + y * y + z * z > Fin 1)"

definition stuck_rand :: "nat \<Rightarrow> real" where
  "stuck_rand p = 63 / 64"

definition centre_rand :: "nat \<Rightarrow> real" where
  "centre_rand p = 1 / 2"

definition late_rand :: "nat \<Rightarrow> real" where
  "late_rand p = (if p < 3 then 63 / 64 else 1 / 2)"

section \<open>ModelGenerator\<close>

text \<open>
  The console is part of the result: a message is its level, its text without the
  interpolated numbers, and those numbers. The environment of a call is the cursor into
  the draws of \<open>Math.random()\<close> and the console. What the source throws is a value.
\<close>

datatype level = LogLevel | WarnLevel | ErrorLevel

record env =
  cursor :: nat
  console :: "(level \<times> string \<times> nat list) list"

definition emit :: "level \<Rightarrow> string \<Rightarrow> nat list \<Rightarrow> env \<Rightarrow> env" where
  "emit l msg args e = e\<lparr>console := console e @ [(l, msg, args)]\<rparr>"

datatype error =
    TooManyVertices nat
  | TargetArrayTooLarge nat
  | PositionNotDivisibleBy3
  | ColorLengthMismatch
  | SizeLengthMismatch

text \<open>
  A loaded scene is the list of the objects \<open>traverse\<close> visits, in its order. A mesh
  carries the vertices of its \<open>position\<close> attribute (\<open>None\<close> when the geometry or the
  attribute is missing) and its world matrix, taken as the function \<open>applyMatrix4\<close>
  applies. Counts are natural numbers: a negative or fractional \<open>particleCount\<close> is
  outside the model.
\<close>

type_synonym vec3 = "jsnum \<times> jsnum \<times> jsnum"

datatype object3d = Mesh "vec3 list option" "vec3 \<Rightarrow> vec3" | Object3D

record ModelOptions =
  scale :: "jsnum option"
  particleCount :: "nat option"

definition maxVertices :: nat where
  "maxVertices = 15000"

text \<open>First pass of \<open>extractVertices\<close>: the total vertex count.\<close>

fun totalVertexCount :: "object3d list \<Rightarrow> nat" where
  "totalVertexCount [] = 0"
| "totalVertexCount (Mesh (Some position) matrixWorld # scene) =
     length position + totalVertexCount scene"
| "totalVertexCount (child # scene) = totalVertexCount scene"

text \<open>
  The sampling step, as the count the loop advances by, and as the source computes it
  in doubles; the two agree on every total that is a safe integer.
\<close>

definition samplingStep :: "nat \<Rightarrow> nat" where
  "samplingStep totalCount = max 1 (nat \<lceil>real totalCount / real maxVertices\<rceil>)"

definition samplingStep_double :: "nat \<Rightarrow> jsnum" where
  "samplingStep_double totalCount =
     Math_max (Fin 1) (Math_ceil (num totalCount / num maxVertices))"

text \<open>
  The \<open>for\<close> loop over one mesh, with its \<open>break\<close>. Every iteration that does not stop
  appends one vertex, so the loop ends for every step, also the step \<open>0\<close>.
\<close>

function extract_loop ::
  "vec3 list \<Rightarrow> (vec3 \<Rightarrow> vec3) \<Rightarrow> jsnum \<Rightarrow> nat \<Rightarrow> nat \<Rightarrow> jsnum list \<Rightarrow> jsnum list" where
  "extract_loop position matrixWorld scl step i vertices =
     (if i < length position then
        if real (length vertices) / 3 \<ge> real maxVertices then vertices
        else (case matrixWorld (position ! i) of (x, y, z) \<Rightarrow>
                extract_loop position matrixWorld scl step (i + step)
                  (vertices @ [x * scl, y * scl, z * scl]))
      else vertices)"
  by pat_completeness auto
termination
  by (relation "measure (\<lambda>(position, matrixWorld, scl, step, i, vertices).
        3 * maxVertices - length vertices)") (auto simp: maxVertices_def)

declare extract_loop.simps [simp del]

text \<open>Second pass of \<open>extractVertices\<close>.\<close>

fun extract_pass :: "jsnum \<Rightarrow> nat \<Rightarrow> object3d list \<Rightarrow> jsnum list \<Rightarrow> jsnum list" where
  "extract_pass scl step [] vertices = vertices"
| "extract_pass scl step (Mesh (Some position) matrixWorld # scene) vertices =
     extract_pass scl step scene (extract_loop position matrixWorld scl step 0 vertices)"
| "extract_pass scl step (child # scene) vertices = extract_pass scl step scene vertices"

text \<open>
  \<open>a[sourceIndex]\<close> for a computed index, which is a number: outside the array, or not
  at an integer, the read is \<open>undefined\<close> and a typed array stores it as NaN.
\<close>

fun rd_at :: "jsnum list \<Rightarrow> jsnum \<Rightarrow> jsnum" where
  "rd_at a (Fin r) =
     (if 0 \<le> r \<and> r = of_int \<lfloor>r\<rfloor> then rd a (nat \<lfloor>r\<rfloor>) else NaN)"
| "rd_at a _ = NaN"

text \<open>\<open>i % n\<close> on counts: NaN when \<open>n\<close> is \<open>0\<close>.\<close>

definition js_mod :: "nat \<Rightarrow> nat \<Rightarrow> jsnum" where
  "js_mod i n = (if n = 0 then NaN else num (i mod n))"

text \<open>The bodies of the two loops of \<open>resampleVertices\<close>.\<close>

definition downsample_body :: "jsnum list \<Rightarrow> jsnum \<Rightarrow> nat \<Rightarrow> jsnum list \<Rightarrow> jsnum list" where
  "downsample_body originalVertices step i newVertices =
     (let sourceIndex = Math_floor (num i * step) * Fin 3;
          targetIndex = i * 3
      in if sourceIndex + Fin 2 < num (length originalVertices)
            \<and> targetIndex + 2 < length newVertices
         then store3 newVertices targetIndex
                (rd_at originalVertices sourceIndex)
                (rd_at originalVertices (sourceIndex + Fin 1))
                (rd_at originalVertices (sourceIndex + Fin 2))
         else newVertices)"

definition upsample_body ::
  "(nat \<Rightarrow> real) \<Rightarrow> jsnum list \<Rightarrow> nat \<Rightarrow> nat \<Rightarrow> jsnum list \<times> nat \<Rightarrow> jsnum list \<times> nat" where
  "upsample_body rand originalVertices originalCount i st =
     (case st of (newVertices, p) \<Rightarrow>
       (let sourceIndex = js_mod i originalCount * Fin 3;
            targetIndex = i * 3;
            offset = (Fin (rand p) - Fin (1 / 2)) * dbl (1 / 100)
        in if sourceIndex + Fin 2 < num (length originalVertices)
              \<and> targetIndex + 2 < length newVertices
           then (store3 newVertices targetIndex
                  (rd_at originalVertices sourceIndex + offset)
                  (rd_at originalVertices (sourceIndex + Fin 1) + offset)
                  (rd_at originalVertices (sourceIndex + Fin 2) + offset), p + 1)
           else (newVertices, p + 1)))"

text \<open>
  \<open>resampleVertices\<close>. With natural counts the creation of the new array cannot fail,
  so the \<open>catch\<close> branch of the source is never taken.
\<close>

definition resampleVertices ::
  "(nat \<Rightarrow> real) \<Rightarrow> jsnum list \<Rightarrow> nat \<Rightarrow> env \<Rightarrow> (error + jsnum list) \<times> env" where
  "resampleVertices rand originalVertices targetCount e =
     (let maxParticles = 1000;
          safeTargetCount = min targetCount maxParticles;
          finalTargetCount = safeTargetCount
      in if finalTargetCount * 3 > 50000
         then (Inl (TargetArrayTooLarge (finalTargetCount * 3)), e)
         else
          (let originalCount = length originalVertices div 3;
               e1 = emit LogLevel ''Resampling particles'' [originalCount, finalTargetCount] e;
               newVertices = replicate (finalTargetCount * 3) (Fin 0);
               (filled, p) =
                 (if finalTargetCount \<le> originalCount
                  then (let step = num originalCount / num finalTargetCount
                        in (fold (downsample_body originalVertices step)
                              [0..<finalTargetCount] newVertices, cursor e1))
                  else fold (upsample_body rand originalVertices originalCount)
                         [0..<finalTargetCount] (newVertices, cursor e1));
               e2 = e1\<lparr>cursor := p\<rparr>;
               e3 = (if finalTargetCount < targetCount
                     then emit WarnLevel ''ModelGenerator: Reduced particle count for performance''
                            [targetCount, finalTargetCount] e2
                     else e2)
           in (Inr filled, e3)))"

text \<open>
  \<open>extractVertices\<close>. The vertices are collected in an array of numbers and become a
  \<open>Float32Array\<close> when they are returned or handed to \<open>resampleVertices\<close>.
\<close>

definition extractVertices ::
  "(nat \<Rightarrow> real) \<Rightarrow> object3d list \<Rightarrow> ModelOptions \<Rightarrow> env \<Rightarrow> (error + jsnum list) \<times> env" where
  "extractVertices rand scene opts e =
     (let scl = or_default (scale opts) (Fin 1);
          totalCount = totalVertexCount scene;
          e1 = emit LogLevel ''Total vertices in model'' [totalCount] e;
          step = samplingStep totalCount;
          e2 = emit LogLevel ''Using sampling step'' [step] e1;
          vertices = extract_pass scl step scene [];
          extractedParticleCount = length vertices div 3;
          e3 = emit LogLevel ''Extracted particles from model'' [extractedParticleCount] e2;
          validLength = extractedParticleCount * 3;
          (vertices', e4) =
            (if length vertices \<noteq> validLength
             then (take validLength vertices,
                   emit WarnLevel ''Adjusting array length'' [length vertices, validLength] e3)
             else (vertices, e3))
      in if validLength > 60000 then (Inl (TooManyVertices validLength), e4)
         else
          (let targetParticleCount =
                 (case particleCount opts of
                    None \<Rightarrow> extractedParticleCount
                  | Some pc \<Rightarrow> if pc = 0 then extractedParticleCount else min pc maxVertices)
           in if targetParticleCount \<noteq> extractedParticleCount
              then resampleVertices rand (map fround vertices') targetParticleCount e4
              else (Inr (map fround vertices'), e4)))"

section \<open>ParticleSystem\<close>

text \<open>
  The particle data and the options the system reads for its positions, its connections
  and its animation; the options of the shaders are left out. The system is its state
  after the constructor: the data, the merged options, the working positions (the array
  of the \<open>position\<close> attribute), the clock, and the endpoints of the connection
  segments when there are any. The velocities, which are drawn once and never read, and
  the objects of the renderer are left out.
\<close>

record ParticleData =
  positions :: "jsnum list"
  colors :: "jsnum list"
  sizes :: "jsnum list"
  data_count :: nat

record ParticleOptions =
  animated :: "bool option"
  animationSpeed :: "jsnum option"
  animationRadius :: "jsnum option"
  connected :: "bool option"
  connectionDistance :: "jsnum option"
  interactive :: "bool option"
  mouseInfluence :: "jsnum option"
  mouseRadius :: "jsnum option"

record ParticleSystem =
  data :: ParticleData
  options :: ParticleOptions
  animatedPositions :: "jsnum list"
  time :: jsnum
  connections :: "jsnum list option"

text \<open>Truthiness of an optional flag, and a given property over its default.\<close>

fun flag :: "bool option \<Rightarrow> bool" where
  "flag None = False"
| "flag (Some b) = b"

fun given :: "'a option \<Rightarrow> 'a \<Rightarrow> 'a option" where
  "given None d = Some d"
| "given (Some v) d = Some v"

text \<open>The defaults of the constructor, overridden by the options given.\<close>

definition merge_options :: "ParticleOptions \<Rightarrow> ParticleOptions" where
  "merge_options opts =
     \<lparr>animated = given (animated opts) False,
      animationSpeed = given (animationSpeed opts) (Fin 1),
      animationRadius = given (animationRadius opts) (dbl (1 / 10)),
      connected = given (connected opts) False,
      connectionDistance = given (connectionDistance opts) (Fin 1),
      interactive = given (interactive opts) False,
      mouseInfluence = given (mouseInfluence opts) (Fin 1),
      mouseRadius = given (mouseRadius opts) (Fin 2)\<rparr>"

text \<open>The checks of \<open>initGeometry\<close>, in the order of the source.\<close>

definition initGeometry :: "ParticleData \<Rightarrow> error + unit" where
  "initGeometry d =
     (if length (positions d) mod 3 \<noteq> 0 then Inl PositionNotDivisibleBy3
      else if length (colors d) \<noteq> data_count d * 3 then Inl ColorLengthMismatch
      else if length (sizes d) \<noteq> data_count d then Inl SizeLengthMismatch
      else Inr ())"

text \<open>
  The two loops of \<open>initConnections\<close> and the array \<open>positions\<close> they fill, which becomes
  a \<open>Float32BufferAttribute\<close> when it is not empty.
\<close>

definition connect_body ::
  "jsnum list \<Rightarrow> jsnum \<Rightarrow> jsnum \<Rightarrow> jsnum \<Rightarrow> jsnum \<Rightarrow> nat \<Rightarrow> jsnum list \<Rightarrow> jsnum list" where
  "connect_body ps maxDistance x1 y1 z1 j segs =
     (let x2 = rd ps (j * 3); y2 = rd ps (j * 3 + 1); z2 = rd ps (j * 3 + 2);
          distance = Math_sqrt (Math_pow2 (x2 - x1) + Math_pow2 (y2 - y1) + Math_pow2 (z2 - z1))
      in if distance \<le> maxDistance then segs @ [x1, y1, z1, x2, y2, z2] else segs)"

definition connect_loop :: "jsnum list \<Rightarrow> nat \<Rightarrow> jsnum \<Rightarrow> jsnum list" where
  "connect_loop ps particleCount' maxDistance =
     fold (\<lambda>i segs.
            let x1 = rd ps (i * 3); y1 = rd ps (i * 3 + 1); z1 = rd ps (i * 3 + 2)
            in fold (connect_body ps maxDistance x1 y1 z1) [i + 1..<particleCount'] segs)
       [0..<particleCount'] []"

definition initConnections :: "ParticleSystem \<Rightarrow> ParticleSystem" where
  "initConnections s =
     (if \<not> flag (connected (options s)) then s
      else
       (let particleCount' = data_count (data s);
            maxDistance = or_default (connectionDistance (options s)) (Fin 1);
            segs = connect_loop (positions (data s)) particleCount' maxDistance
        in if length segs > 0 then s\<lparr>connections := Some (map fround segs)\<rparr> else s))"

text \<open>
  The constructor: \<open>initAnimationData\<close> copies the positions, \<open>initGeometry\<close> throws on
  the first length that is wrong, and the connections are built when asked for. The
  calls into the renderer are taken not to throw.
\<close>

definition construct :: "ParticleData \<Rightarrow> ParticleOptions \<Rightarrow> error + ParticleSystem" where
  "construct d opts =
     (let s = \<lparr>data = d, options = merge_options opts, animatedPositions = positions d,
               time = Fin 0, connections = None\<rparr>
      in case initGeometry d of
           Inl err \<Rightarrow> Inl err
         | Inr u \<Rightarrow> Inr (if flag (connected (options s)) then initConnections s else s))"

text \<open>
  The body of the loop of \<open>update\<close>. The pointer is given as \<open>mouseInfluenceVector\<close>
  after \<open>unproject\<close>, which the renderer computes: \<open>None\<close> when the mouse position or the
  camera is missing.
\<close>

definition update_body ::
  "ParticleOptions \<Rightarrow> jsnum \<Rightarrow> jsnum list \<Rightarrow> vec3 option \<Rightarrow> nat \<Rightarrow> jsnum list \<Rightarrow> jsnum list" where
  "update_body opts t ps mouse i positionAttribute =
     (let i3 = i * 3;
          originalX = rd ps i3; originalY = rd ps (i3 + 1); originalZ = rd ps (i3 + 2);
          (newX, newY, newZ) =
            (if flag (animated opts)
             then (let animRadius = or_default (animationRadius opts) (dbl (1 / 10))
                   in (originalX + Math_sin (t + num i * dbl (1 / 10)) * animRadius,
                       originalY + Math_cos (t + num i * dbl (15 / 100)) * animRadius * Fin (1 / 2),
                       originalZ + Math_sin (t + num i * dbl (2 / 10)) * animRadius * dbl (3 / 10)))
             else (originalX, originalY, originalZ));
          (newX, newY, newZ) =
            (case (flag (interactive opts), mouse) of
               (True, Some (mx, my, mz)) \<Rightarrow>
                 (let mouseInfluence' = or_default (mouseInfluence opts) (Fin 1);
                      mouseRadius' = or_default (mouseRadius opts) (Fin 2);
                      distance = Math_sqrt (Math_pow2 (newX - mx) + Math_pow2 (newY - my)
                                            + Math_pow2 (newZ - mz))
                  in if distance < mouseRadius'
                     then (let force = (Fin 1 - distance / mouseRadius') * mouseInfluence' * dbl (1 / 10);
                               dirX = (newX - mx) / distance;
                               dirY = (newY - my) / distance;
                               dirZ = (newZ - mz) / distance
                           in (newX + dirX * force, newY + dirY * force, newZ + dirZ * force))
                     else (newX, newY, newZ))
             | _ \<Rightarrow> (newX, newY, newZ))
      in store3 positionAttribute i3 newX newY newZ)"

definition update :: "ParticleSystem \<Rightarrow> jsnum \<Rightarrow> vec3 option \<Rightarrow> ParticleSystem" where
  "update s deltaTime mouse =
     (if \<not> flag (animated (options s)) \<and> \<not> flag (interactive (options s)) then s
      else
       (let t = time s + deltaTime * or_default (animationSpeed (options s)) (Fin 1);
            particleCount' = data_count (data s)
        in s\<lparr>time := t,
             animatedPositions :=
               fold (update_body (options s) t (positions (data s)) mouse)
                 [0..<particleCount'] (animatedPositions s)\<rparr>))"

text \<open>A run of the animation: one call of \<open>update\<close> for every tick, in order.\<close>

fun run :: "ParticleSystem \<Rightarrow> (jsnum \<times> vec3 option) list \<Rightarrow> ParticleSystem" where
  "run s [] = s"
| "run s ((deltaTime, mouse) # ticks) = run (update s deltaTime mouse) ticks"

text \<open>
  The connection graph in the words of the specification, to compare the loops with:
  the index pairs \<open>(i, j)\<close> with \<open>i < j\<close> in the order of the loops, the distance of two
  particles as the source computes it (in doubles, from the coordinates it reads), the
  pairs within a threshold, and the six endpoint coordinates of the segment of a pair.
\<close>

definition pairs :: "nat \<Rightarrow> (nat \<times> nat) list" where
  "pairs n = concat (map (\<lambda>i. map (\<lambda>j. (i, j)) [i + 1..<n]) [0..<n])"

definition js_distance :: "jsnum list \<Rightarrow> nat \<Rightarrow> nat \<Rightarrow> jsnum" where
  "js_distance ps i j =
     Math_sqrt (Math_pow2 (rd ps (j * 3) - rd ps (i * 3))
                + Math_pow2 (rd ps (j * 3 + 1) - rd ps (i * 3 + 1))
                + Math_pow2 (rd ps (j * 3 + 2) - rd ps (i * 3 + 2)))"

definition near_pairs :: "jsnum list \<Rightarrow> nat \<Rightarrow> jsnum \<Rightarrow> (nat \<times> nat) list" where
  "near_pairs ps n maxDistance =
     filter (\<lambda>(i, j). js_distance ps i j \<le> maxDistance) (pairs n)"

fun segment :: "jsnum list \<Rightarrow> nat \<times> nat \<Rightarrow> jsnum list" where
  "segment ps (i, j) =
     [rd ps (i * 3), rd ps (i * 3 + 1), rd ps (i * 3 + 2),
      rd ps (j * 3), rd ps (j * 3 + 1), rd ps (j * 3 + 2)]"

text \<open>
  The extraction in the words of the specification: the parts of a scene that carry
  vertices, every \<open>step\<close>-th element of a list from the first on, the three scaled
  coordinates of a vertex, and the buffer of every \<open>step\<close>-th vertex of every part, each
  under the world matrix of its part.
\<close>

fun part_of :: "object3d \<Rightarrow> (vec3 list \<times> (vec3 \<Rightarrow> vec3)) list" where
  "part_of (Mesh (Some position) matrixWorld) = [(position, matrixWorld)]"
| "part_of child = []"

definition parts :: "object3d list \<Rightarrow> (vec3 list \<times> (vec3 \<Rightarrow> vec3)) list" where
  "parts scene = concat (map part_of scene)"

definition every_nth :: "nat \<Rightarrow> 'a list \<Rightarrow> 'a list" where
  "every_nth step xs = map (nth xs) (filter (\<lambda>j. j mod step = 0) [0..<length xs])"

definition flat :: "jsnum \<Rightarrow> vec3 \<Rightarrow> jsnum list" where
  "flat scl v = (case v of (x, y, z) \<Rightarrow> [x * scl, y * scl, z * scl])"

definition sampled :: "jsnum \<Rightarrow> nat \<Rightarrow> object3d list \<Rightarrow> jsnum list" where
  "sampled scl step scene =
     concat (map (\<lambda>(position, matrixWorld).
                    concat (map (\<lambda>v. flat scl (matrixWorld v)) (every_nth step position)))
               (parts scene))"

section \<open>Properties of the rounding\<close>

lemma round_even_of_int [simp]: "round_even (of_int z) = z"
  by (simp add: round_even_def)

lemma round_even_error: "\<bar>of_int (round_even y) - y\<bar> \<le> 1 / 2"
proof -
  have "of_int \<lfloor>y\<rfloor> \<le> y" "y < of_int \<lfloor>y\<rfloor> + 1" by linarith+
  then show ?thesis by (auto simp: round_even_def Let_def)
qed

lemma round_even_le: "y \<le> of_int N \<Longrightarrow> round_even y \<le> N"
proof -
  assume a: "y \<le> of_int N"
  have f: "\<lfloor>y\<rfloor> \<le> N" using a by linarith
  show ?thesis
  proof (cases "\<lfloor>y\<rfloor> = N")
    case True
    then have "y - of_int \<lfloor>y\<rfloor> \<le> 0" using a by simp
    then show ?thesis using True by (simp add: round_even_def Let_def)
  next
    case False
    with f have "\<lfloor>y\<rfloor> + 1 \<le> N" by simp
    then show ?thesis using f by (auto simp: round_even_def Let_def)
  qed
qed

lemma round_even_ge: "of_int N \<le> y \<Longrightarrow> N \<le> round_even y"
proof -
  assume a: "of_int N \<le> y"
  then have "N \<le> \<lfloor>y\<rfloor>" by (simp add: le_floor_iff)
  then show ?thesis by (auto simp: round_even_def Let_def)
qed

lemma nearest_nonneg: "0 \<le> a \<Longrightarrow> 0 \<le> nearest k a"
proof -
  assume "0 \<le> a"
  then have "of_int 0 \<le> a / 2 powr of_int k" by simp
  from round_even_ge [OF this] show ?thesis by (simp add: nearest_def)
qed

lemma nearest_nonpos: "a \<le> 0 \<Longrightarrow> nearest k a \<le> 0"
proof -
  assume "a \<le> 0"
  then have "a / 2 powr of_int k \<le> of_int 0" by (simp add: divide_le_0_iff)
  from round_even_le [OF this] show ?thesis by (simp add: nearest_def mult_le_0_iff)
qed

lemma nearest_error: "\<bar>nearest k a - a\<bar> \<le> 2 powr of_int k / 2"
proof -
  define q :: real where "q = 2 powr of_int k"
  have q: "0 < q" by (simp add: q_def)
  have "nearest k a - a = (of_int (round_even (a / q)) - a / q) * q"
    using q by (simp add: nearest_def q_def [symmetric] algebra_simps)
  then have "\<bar>nearest k a - a\<bar> = \<bar>of_int (round_even (a / q)) - a / q\<bar> * q"
    using q by (simp add: abs_mult)
  also have "\<dots> \<le> (1 / 2) * q"
    using round_even_error [of "a / q"] q by (intro mult_right_mono) simp_all
  finally show ?thesis by (simp add: q_def)
qed

lemma nearest_exact:
  assumes "a = of_int M * 2 powr of_int K" "k \<le> K"
  shows "nearest k a = a"
proof -
  have "a / 2 powr of_int k = of_int M * 2 powr (of_int K - of_int k)"
    by (simp add: assms(1) powr_diff)
  also have "of_int K - of_int k = real (nat (K - k))" using assms(2) by simp
  also have "(2::real) powr real (nat (K - k)) = 2 ^ nat (K - k)" by (simp add: powr_realpow)
  also have "of_int M * (2::real) ^ nat (K - k) = of_int (M * 2 ^ nat (K - k))" by simp
  finally have "nearest k a = of_int (M * 2 ^ nat (K - k)) * 2 powr of_int k"
    unfolding nearest_def by (simp only: round_even_of_int)
  also have "\<dots> = of_int M * ((2::real) powr real (nat (K - k)) * 2 powr of_int k)"
    by (simp add: powr_realpow)
  also have "(2::real) powr real (nat (K - k)) * 2 powr of_int k = 2 powr of_int K"
    using assms(2) by (simp add: powr_add [symmetric])
  finally show ?thesis by (simp add: assms(1))
qed

lemma nearest_bound:
  assumes "\<bar>a\<bar> \<le> 2 powr of_int E" "k \<le> E"
  shows "\<bar>nearest k a\<bar> \<le> 2 powr of_int E"
proof -
  define q :: real where "q = 2 powr of_int k"
  define N :: int where "N = 2 ^ nat (E - k)"
  have q: "0 < q" by (simp add: q_def)
  have Nq: "of_int N * q = 2 powr of_int E"
  proof -
    have "of_int N * q = (2::real) powr real (nat (E - k)) * 2 powr of_int k"
      by (simp add: N_def q_def powr_realpow)
    also have "\<dots> = 2 powr of_int E" using assms(2) by (simp add: powr_add [symmetric])
    finally show ?thesis .
  qed
  have "\<bar>a / q\<bar> \<le> of_int N"
  proof -
    have "\<bar>a / q\<bar> = \<bar>a\<bar> / q" using q by simp
    also have "\<dots> \<le> 2 powr of_int E / q" using assms(1) q by (simp add: divide_right_mono)
    also have "\<dots> = of_int N" using Nq q by (simp add: field_simps)
    finally show ?thesis .
  qed
  then have b: "a / q \<le> of_int N" "of_int (- N) \<le> a / q" by linarith+
  have "round_even (a / q) \<le> N" "- N \<le> round_even (a / q)"
    using round_even_le [OF b(1)] round_even_ge [OF b(2)] by simp_all
  then have "\<bar>real_of_int (round_even (a / q))\<bar> \<le> of_int N" by linarith
  then have "\<bar>nearest k a\<bar> \<le> of_int N * q"
    using q by (simp add: nearest_def q_def [symmetric] abs_mult mult_right_mono)
  then show ?thesis by (simp add: Nq)
qed

lemma round_to_cases:
  "(\<exists>r. round_to p emin emax a = Fin r \<and> (0 \<le> a \<longrightarrow> 0 \<le> r) \<and> (a \<le> 0 \<longrightarrow> r \<le> 0))
   \<or> (round_to p emin emax a = PInf \<and> 0 < a) \<or> (round_to p emin emax a = NInf \<and> a < 0)"
  using nearest_nonneg [of a "ulp_exp p emin a"] nearest_nonpos [of a "ulp_exp p emin a"]
  by (auto simp: round_to_def Let_def)


lemma ulp_exp_le:
  assumes "a \<noteq> 0" "\<bar>a\<bar> < 2 powr of_int E" "emin < E"
  shows "ulp_exp p emin a \<le> E - int p"
proof -
  have "log 2 \<bar>a\<bar> < of_int E" using assms(1,2) by (simp add: log_less_iff)
  then have "\<lfloor>log 2 \<bar>a\<bar>\<rfloor> < E" by (simp add: floor_less_iff)
  with assms(3) show ?thesis by (simp add: ulp_exp_def)
qed

lemma ulp_exp_ge: "emin - int p + 1 \<le> ulp_exp p emin a"
  by (simp add: ulp_exp_def)

text \<open>A multiple of a power of two with a short enough mantissa is not changed.\<close>

lemma round_to_exact:
  assumes a: "a = of_int M * 2 powr of_int K" and M: "\<bar>M\<bar> < 2 ^ p"
    and K: "emin - int p + 1 \<le> K" and r: "\<bar>a\<bar> < 2 powr of_int emax"
  shows "round_to p emin emax a = Fin a"
proof (cases "a = 0")
  case True
  then show ?thesis by (simp add: round_to_def)
next
  case False
  have "\<bar>a\<bar> = \<bar>of_int M\<bar> * 2 powr of_int K" by (simp add: a abs_mult)
  also have "\<dots> < 2 ^ p * 2 powr of_int K"
  proof (rule mult_strict_right_mono)
    have "real_of_int \<bar>M\<bar> < real_of_int (2 ^ p)" using M by (rule iffD2 [OF of_int_less_iff])
    then show "\<bar>real_of_int M\<bar> < 2 ^ p" by simp
  qed simp
  also have "\<dots> = 2 powr of_int (K + int p)"
    by (simp add: powr_add powr_realpow)
  finally have lt: "\<bar>a\<bar> < 2 powr of_int (K + int p)" .
  have "emin < K + int p" using K by simp
  from ulp_exp_le [OF False lt this, of p] have "ulp_exp p emin a \<le> K" by simp
  from nearest_exact [OF a this] r False show ?thesis
    by (simp add: round_to_def Let_def)
qed

text \<open>Below the overflow threshold the result is finite, within half a unit in the last
  place of the bound, and within the bound.\<close>

lemma round_to_near:
  assumes b: "\<bar>a\<bar> \<le> 2 powr of_int E" and E: "emin < E" "E < emax" and p: "0 < p"
  shows "\<exists>r. round_to p emin emax a = Fin r \<and> \<bar>r - a\<bar> \<le> 2 powr of_int (E - int p)
             \<and> \<bar>r\<bar> \<le> 2 powr of_int E"
proof (cases "a = 0")
  case True
  then show ?thesis by (simp add: round_to_def)
next
  case False
  define k where "k = ulp_exp p emin a"
  have kE: "k \<le> E - int p + 1"
  proof (cases "\<bar>a\<bar> = 2 powr of_int E")
    case True
    then have "log 2 \<bar>a\<bar> = of_int E" by simp
    then show ?thesis using E(1) by (simp add: k_def ulp_exp_def)
  next
    case False
    with b have "\<bar>a\<bar> < 2 powr of_int E" by simp
    from ulp_exp_le [OF \<open>a \<noteq> 0\<close> this E(1), of p] show ?thesis by (simp add: k_def)
  qed
  then have kE': "k \<le> E" using p by simp
  have bd: "\<bar>nearest k a\<bar> \<le> 2 powr of_int E" by (rule nearest_bound [OF b kE'])
  have "2 powr of_int E < (2::real) powr of_int emax" using E(2) by simp
  with bd have fin: "\<not> 2 powr of_int emax \<le> \<bar>nearest k a\<bar>" by linarith
  have "\<bar>nearest k a - a\<bar> \<le> 2 powr of_int k / 2" by (rule nearest_error)
  also have "\<dots> = 2 powr of_int (k - 1)" by (simp add: powr_diff)
  also have "\<dots> \<le> 2 powr of_int (E - int p)" using kE by simp
  finally have er: "\<bar>nearest k a - a\<bar> \<le> 2 powr of_int (E - int p)" .
  show ?thesis using False fin er bd
    by (simp add: round_to_def Let_def k_def [symmetric])
qed

lemma dbl_dyadic:
  assumes "\<bar>M\<bar> < 2 ^ 53" "j \<le> 1074"
  shows "dbl (of_int M / 2 ^ j) = Fin (of_int M / 2 ^ j)"
proof -
  have e: "real_of_int M / 2 ^ j = of_int M * 2 powr of_int (- int j)"
    by (simp add: powr_minus powr_realpow divide_inverse)
  have "\<bar>real_of_int M\<bar> < 2 ^ 53"
    using assms(1) by (metis of_int_abs of_int_less_iff of_int_numeral of_int_power)
  moreover have "\<bar>real_of_int M\<bar> / 2 ^ j \<le> \<bar>real_of_int M\<bar>"
    using mult_left_mono [of 1 "2 ^ j" "\<bar>real_of_int M\<bar>"] by (simp add: field_simps)
  ultimately have "\<bar>real_of_int M / 2 ^ j\<bar> < 2 ^ 53" by simp
  also have "(2::real) ^ 53 < 2 ^ 1024" by (rule power_strict_increasing) simp_all
  also have "(2::real) ^ 1024 = 2 powr of_int 1024"
    by (simp add: powr_realpow [symmetric])
  finally have r: "\<bar>real_of_int M / 2 ^ j\<bar> < 2 powr of_int 1024" .
  show ?thesis
    unfolding dbl_def
    by (rule round_to_exact [OF e assms(1) _ r]) (use assms(2) in simp)
qed

lemma f32_dyadic:
  assumes "\<bar>M\<bar> < 2 ^ 24" "j \<le> 149"
  shows "f32 (of_int M / 2 ^ j) = Fin (of_int M / 2 ^ j)"
proof -
  have e: "real_of_int M / 2 ^ j = of_int M * 2 powr of_int (- int j)"
    by (simp add: powr_minus powr_realpow divide_inverse)
  have "\<bar>real_of_int M\<bar> < 2 ^ 24"
    using assms(1) by (metis of_int_abs of_int_less_iff of_int_numeral of_int_power)
  moreover have "\<bar>real_of_int M\<bar> / 2 ^ j \<le> \<bar>real_of_int M\<bar>"
    using mult_left_mono [of 1 "2 ^ j" "\<bar>real_of_int M\<bar>"] by (simp add: field_simps)
  ultimately have "\<bar>real_of_int M / 2 ^ j\<bar> < 2 ^ 24" by simp
  also have "(2::real) ^ 24 < 2 ^ 128" by (rule power_strict_increasing) simp_all
  also have "(2::real) ^ 128 = 2 powr of_int 128"
    by (simp add: powr_realpow [symmetric])
  finally have r: "\<bar>real_of_int M / 2 ^ j\<bar> < 2 powr of_int 128" .
  show ?thesis
    unfolding f32_def
    by (rule round_to_exact [OF e assms(1) _ r]) (use assms(2) in simp)
qed

lemma dbl_int: "\<bar>z\<bar> < 2 ^ 53 \<Longrightarrow> dbl (of_int z) = Fin (of_int z)"
  using dbl_dyadic [of z 0] by simp

lemma dbl_nat: "n < 2 ^ 53 \<Longrightarrow> dbl (real n) = Fin (real n)"
  using dbl_int [of "int n"] by simp

lemma f32_int: "\<bar>z\<bar> < 2 ^ 24 \<Longrightarrow> f32 (of_int z) = Fin (of_int z)"
  using f32_dyadic [of z 0] by simp

lemma dbl_0 [simp]: "dbl 0 = Fin 0"
  by (simp add: dbl_def round_to_def)

lemma f32_0 [simp]: "f32 0 = Fin 0"
  by (simp add: f32_def round_to_def)

lemma dbl_1 [simp]: "dbl 1 = Fin 1"
  using dbl_int [of 1] by simp

lemma f32_1 [simp]: "f32 1 = Fin 1"
  using f32_int [of 1] by simp

lemma dbl_numeral: "numeral w < (2::int) ^ 53 \<Longrightarrow> dbl (numeral w) = Fin (numeral w)"
  using dbl_int [of "numeral w"] by simp

lemma f32_numeral: "numeral w < (2::int) ^ 24 \<Longrightarrow> f32 (numeral w) = Fin (numeral w)"
  using f32_int [of "numeral w"] by simp

lemma dbl_2: "dbl 2 = Fin 2" by (simp add: dbl_numeral)

lemma round_to_idem:
  assumes r: "round_to p emin emax a = Fin r" and p: "0 < p"
  shows "round_to p emin emax r = Fin r"
proof (cases "a = 0")
  case True
  with r have "r = 0" by (simp add: round_to_def)
  then show ?thesis by (simp add: round_to_def)
next
  case False
  define k where "k = ulp_exp p emin a"
  define N where "N = round_even (a / 2 powr of_int k)"
  have rN: "r = of_int N * 2 powr of_int k" and rb: "\<bar>r\<bar> < 2 powr of_int emax"
    using r False
    by (auto simp: round_to_def Let_def nearest_def k_def N_def split: if_splits)
  have kge: "emin - int p + 1 \<le> k" by (simp add: k_def ulp_exp_ge)
  have "log 2 \<bar>a\<bar> < of_int (\<lfloor>log 2 \<bar>a\<bar>\<rfloor> + 1)" by linarith
  then have "\<bar>a\<bar> < 2 powr of_int (\<lfloor>log 2 \<bar>a\<bar>\<rfloor> + 1)"
    using False by (simp add: less_powr_iff)
  also have "\<dots> \<le> 2 powr of_int (k + int p)"
    by (simp add: k_def ulp_exp_def)
  also have "\<dots> = 2 ^ p * 2 powr of_int k"
    by (simp add: powr_add powr_realpow)
  finally have "\<bar>a\<bar> / 2 powr of_int k < 2 ^ p"
    by (simp add: field_simps)
  moreover have "\<bar>a / 2 powr of_int k\<bar> = \<bar>a\<bar> / 2 powr of_int k" by simp
  ultimately have ab: "a / 2 powr of_int k \<le> 2 ^ p" "- (2 ^ p) \<le> a / 2 powr of_int k"
    by linarith+
  have "a / 2 powr of_int k \<le> of_int (2 ^ p)" using ab(1) by simp
  then have u: "N \<le> 2 ^ p" unfolding N_def by (rule round_even_le)
  have "of_int (- (2 ^ p)) \<le> a / 2 powr of_int k" using ab(2) by simp
  then have l: "- (2 ^ p) \<le> N" unfolding N_def by (rule round_even_ge)
  consider "\<bar>N\<bar> < 2 ^ p" | "N = 2 ^ p" | "N = - (2 ^ p)" using u l by linarith
  then show ?thesis
  proof cases
    case 1
    show ?thesis by (rule round_to_exact [OF rN 1 kge rb])
  next
    case 2
    have e: "r = of_int 1 * 2 powr of_int (k + int p)"
      by (simp add: rN 2 powr_add powr_realpow)
    have "\<bar>1::int\<bar> < 2 ^ p" using p by simp
    from round_to_exact [OF e this _ rb] kge show ?thesis by simp
  next
    case 3
    have e: "r = of_int (- 1) * 2 powr of_int (k + int p)"
      by (simp add: rN 3 powr_add powr_realpow)
    have "\<bar>- 1::int\<bar> < 2 ^ p" using p by simp
    from round_to_exact [OF e this _ rb] kge show ?thesis by simp
  qed
qed

lemma fround_idem [simp]: "fround (fround x) = fround x"
proof (cases x)
  case (Fin a)
  show ?thesis
  proof (cases "f32 a")
    case (Fin r)
    from round_to_idem [OF Fin [unfolded f32_def]] have "f32 r = Fin r" by (simp add: f32_def)
    with Fin \<open>x = Fin a\<close> show ?thesis by simp
  qed (simp_all add: \<open>x = Fin a\<close>)
qed simp_all

lemma round_even_unique:
  assumes "\<bar>y - of_int M\<bar> < 1 / 2"
  shows "round_even y = M"
proof -
  have "\<bar>of_int (round_even y) - y\<bar> \<le> 1 / 2" by (rule round_even_error)
  with assms have "\<bar>real_of_int (round_even y) - of_int M\<bar> < 1" by linarith
  then have "\<bar>real_of_int (round_even y - M)\<bar> < 1" by simp
  then have "\<bar>round_even y - M\<bar> < 1" by linarith
  then show ?thesis by simp
qed

text \<open>
  A number in the binade of a normal number \<open>r\<close> and closer to it than half a unit in
  the last place is rounded to \<open>r\<close>.
\<close>

lemma round_to_point:
  assumes r: "r = of_int M * 2 powr of_int K"
    and lo: "2 powr of_int (K + int p - 1) \<le> \<bar>a\<bar>" and hi: "\<bar>a\<bar> < 2 powr of_int (K + int p)"
    and near: "\<bar>a - r\<bar> < 2 powr of_int K / 2"
    and K: "emin - int p + 1 \<le> K" and fin: "\<bar>r\<bar> < 2 powr of_int emax"
  shows "round_to p emin emax a = Fin r"
proof -
  have pos: "0 < \<bar>a\<bar>" using lo by (smt (verit) powr_gt_zero)
  then have a0: "a \<noteq> 0" by simp
  have "of_int (K + int p - 1) \<le> log 2 \<bar>a\<bar>" using lo pos by (simp add: le_log_iff)
  moreover have "log 2 \<bar>a\<bar> < of_int (K + int p - 1) + 1"
    using hi pos by (simp add: log_less_iff)
  ultimately have "\<lfloor>log 2 \<bar>a\<bar>\<rfloor> = K + int p - 1" by (intro floor_unique) simp_all
  then have k: "ulp_exp p emin a = K" using K by (simp add: ulp_exp_def)
  define q :: real where "q = 2 powr of_int K"
  have q: "0 < q" by (simp add: q_def)
  have "\<bar>a / q - of_int M\<bar> = \<bar>a - r\<bar> / q"
    using q by (simp add: r q_def [symmetric] field_simps abs_mult abs_divide)
  also have "\<dots> < 1 / 2" using near q by (simp add: q_def [symmetric] field_simps)
  finally have "round_even (a / q) = M" by (rule round_even_unique)
  then have "nearest K a = r" by (simp add: nearest_def r q_def)
  then show ?thesis using a0 fin by (simp add: round_to_def Let_def k)
qed

lemma dbl_unit:
  assumes "\<bar>a\<bar> \<le> 1"
  shows "\<exists>r. dbl a = Fin r \<and> \<bar>r - a\<bar> \<le> 1 / 2 ^ 53 \<and> \<bar>r\<bar> \<le> 1 \<and> (0 \<le> a \<longrightarrow> 0 \<le> r)"
proof -
  have "\<bar>a\<bar> \<le> 2 powr of_int 0" using assms by simp
  from round_to_near [OF this, of "- 1022" 1024 53]
  obtain r where r: "dbl a = Fin r" "\<bar>r - a\<bar> \<le> 2 powr of_int (0 - int 53)"
      "\<bar>r\<bar> \<le> 2 powr of_int 0"
    by (auto simp: dbl_def)
  have "(2::real) powr of_int (0 - int 53) = 1 / 2 ^ 53"
    by (simp add: powr_minus powr_realpow [symmetric] field_simps del: powr_numeral)
  with r have "\<bar>r - a\<bar> \<le> 1 / 2 ^ 53" "\<bar>r\<bar> \<le> 1" by simp_all
  moreover have "0 \<le> a \<longrightarrow> 0 \<le> r"
    using round_to_cases [of 53 "- 1022" 1024 a] r(1) by (auto simp: dbl_def)
  ultimately show ?thesis using r(1) by blast
qed

lemma dbl_bounded:
  assumes "\<bar>a\<bar> \<le> 2 ^ E" "E < 1024"
  shows "\<exists>r. dbl a = Fin r \<and> \<bar>r\<bar> \<le> 2 ^ E \<and> (0 \<le> a \<longrightarrow> 0 \<le> r)"
proof -
  have e: "(2::real) powr of_int (int E) = 2 ^ E" by (simp add: powr_realpow)
  have "\<bar>a\<bar> \<le> 2 powr of_int (int E)" using assms(1) by (simp only: e)
  from round_to_near [OF this, of "- 1022" 1024 53] assms(2)
  obtain r where r: "dbl a = Fin r" "\<bar>r\<bar> \<le> 2 powr of_int (int E)"
    by (auto simp: dbl_def)
  moreover have "0 \<le> a \<longrightarrow> 0 \<le> r"
    using round_to_cases [of 53 "- 1022" 1024 a] r(1) by (auto simp: dbl_def)
  ultimately show ?thesis by (auto simp only: e)
qed

text \<open>
  Within a bound \<open>B\<close> in the normal range the error of a rounding is at most
  \<open>B * 2 ^ (1 - p)\<close>.
\<close>

lemma round_to_rel:
  assumes a: "\<bar>a\<bar> \<le> B" and lo: "2 powr of_int emin < B"
    and hi: "B \<le> 2 powr of_int (emax - 1)" and p: "0 < p"
  shows "\<exists>r. round_to p emin emax a = Fin r \<and> \<bar>r - a\<bar> \<le> B * 2 powr of_int (1 - int p)"
proof -
  have B: "0 < B" using lo by (smt (verit) powr_gt_zero)
  define E where "E = \<lceil>log 2 B\<rceil>"
  have "log 2 B \<le> of_int E" by (simp add: E_def)
  then have up: "B \<le> 2 powr of_int E" using B by (simp add: log_le_iff)
  have "of_int (E - 1) < log 2 B" unfolding E_def by linarith
  then have dn: "2 powr of_int (E - 1) < B" using B by (simp add: less_log_iff)
  have "of_int emin < log 2 B" using lo B by (simp add: less_log_iff)
  then have 1: "emin < E" by (simp add: E_def less_ceiling_iff)
  have "log 2 B \<le> of_int (emax - 1)" using hi B by (simp add: log_le_iff)
  then have "E \<le> emax - 1" unfolding E_def by (rule ceiling_le)
  then have 2: "E < emax" by simp
  have "\<bar>a\<bar> \<le> 2 powr of_int E" using a up by simp
  from round_to_near [OF this 1 2 p] obtain r where
    r: "round_to p emin emax a = Fin r" "\<bar>r - a\<bar> \<le> 2 powr of_int (E - int p)" by blast
  have "(2::real) powr of_int (E - int p) = 2 powr of_int (E - 1) * 2 powr of_int (1 - int p)"
    by (simp add: powr_add [symmetric])
  also have "\<dots> \<le> B * 2 powr of_int (1 - int p)"
    using dn by (intro mult_right_mono) simp_all
  finally show ?thesis using r by force
qed


text \<open>
  A coordinate of magnitude at most \<open>1\<close>, scaled by a radius \<open>R\<close> and stored as a single,
  is within \<open>\<bar>R\<bar> / 2 ^ 21\<close> of the exact product.
\<close>

lemma store_coord:
  assumes x: "\<bar>x\<bar> \<le> 1" and lo: "1 / 2 ^ 100 \<le> \<bar>R\<bar>" and hi: "\<bar>R\<bar> \<le> 2 ^ 100"
  shows "\<exists>X. fround (Fin x * Fin R) = Fin X \<and> \<bar>X - x * R\<bar> \<le> \<bar>R\<bar> / 2 ^ 21"
proof -
  have R: "0 < \<bar>R\<bar>" using lo by (smt (verit) divide_pos_pos zero_less_numeral zero_less_power)
  have p100: "(2::real) powr of_int (- 100) = 1 / 2 ^ 100" "(2::real) powr of_int 100 = 2 ^ 100"
    by (simp_all add: powr_minus powr_realpow [symmetric] field_simps del: powr_numeral)
  have a: "\<bar>x * R\<bar> \<le> \<bar>R\<bar>" using x by (simp add: abs_mult mult_left_le_one_le)
  have "(2::real) powr of_int (- 1022) < 2 powr of_int (- 100)" by simp
  then have l1: "2 powr of_int (- 1022) < \<bar>R\<bar>" using lo p100 by linarith
  have "(2::real) powr of_int 100 \<le> 2 powr of_int (1024 - 1)" by simp
  then have h1: "\<bar>R\<bar> \<le> 2 powr of_int (1024 - 1)" using hi p100 by linarith
  from round_to_rel [OF a l1 h1, of 53] obtain X1 where
    X1: "dbl (x * R) = Fin X1" "\<bar>X1 - x * R\<bar> \<le> \<bar>R\<bar> * 2 powr of_int (1 - int 53)"
    by (auto simp: dbl_def)
  have e52: "(2::real) powr of_int (1 - int 53) = 1 / 2 ^ 52"
    by (simp add: powr_minus powr_realpow [symmetric] field_simps del: powr_numeral)
  have e23: "(2::real) powr of_int (1 - int 24) = 1 / 2 ^ 23"
    by (simp add: powr_minus powr_realpow [symmetric] field_simps del: powr_numeral)
  have d1: "\<bar>X1 - x * R\<bar> \<le> \<bar>R\<bar> / 2 ^ 52" using X1(2) unfolding e52 by simp
  have "\<bar>R\<bar> / 2 ^ 52 \<le> \<bar>R\<bar>" using R by (simp add: field_simps)
  with d1 a have b: "\<bar>X1\<bar> \<le> 2 * \<bar>R\<bar>" by linarith
  have "(2::real) powr of_int (- 126) < 2 powr of_int (- 100)" by simp
  then have l2: "2 powr of_int (- 126) < 2 * \<bar>R\<bar>" using lo p100 R by linarith
  have "2 * (2::real) powr of_int 100 = 2 powr of_int 101"
    by (simp add: powr_realpow [symmetric] del: powr_numeral)
  moreover have "(2::real) powr of_int 101 \<le> 2 powr of_int (128 - 1)" by simp
  ultimately have h2: "2 * \<bar>R\<bar> \<le> 2 powr of_int (128 - 1)" using hi p100 by linarith
  from round_to_rel [OF b l2 h2, of 24] obtain X where
    X: "f32 X1 = Fin X" "\<bar>X - X1\<bar> \<le> 2 * \<bar>R\<bar> * 2 powr of_int (1 - int 24)"
    by (auto simp: f32_def)
  have d2: "\<bar>X - X1\<bar> \<le> \<bar>R\<bar> / 2 ^ 22" using X(2) unfolding e23 by simp
  have "\<bar>R\<bar> / 2 ^ 52 + \<bar>R\<bar> / 2 ^ 22 \<le> \<bar>R\<bar> / 2 ^ 21" using R by (simp add: field_simps)
  with d1 d2 have "\<bar>X - x * R\<bar> \<le> \<bar>R\<bar> / 2 ^ 21" by linarith
  moreover have "fround (Fin x * Fin R) = Fin X" by (simp add: X1(1) X(1))
  ultimately show ?thesis by blast
qed

text \<open>Strictly below a power of two the error is at most half a unit in the last place.\<close>

lemma round_to_near_strict:
  assumes b: "\<bar>a\<bar> < 2 powr of_int E" and E: "emin < E" "E < emax"
  shows "\<exists>r. round_to p emin emax a = Fin r \<and> \<bar>r - a\<bar> \<le> 2 powr of_int (E - int p) / 2"
proof (cases "a = 0")
  case True
  then show ?thesis by (simp add: round_to_def)
next
  case False
  define k where "k = ulp_exp p emin a"
  have kE: "k \<le> E - int p" unfolding k_def by (rule ulp_exp_le [OF False b E(1)])
  have "\<bar>nearest k a - a\<bar> \<le> 2 powr of_int k / 2" by (rule nearest_error)
  also have "\<dots> \<le> 2 powr of_int (E - int p) / 2" using kE by simp
  finally have er: "\<bar>nearest k a - a\<bar> \<le> 2 powr of_int (E - int p) / 2" .
  have "\<bar>nearest k a\<bar> \<le> 2 powr of_int E"
    by (rule nearest_bound) (use b kE in simp_all)
  moreover have "2 powr of_int E < (2::real) powr of_int emax" using E(2) by simp
  ultimately have "\<not> 2 powr of_int emax \<le> \<bar>nearest k a\<bar>" by linarith
  then show ?thesis using False er by (simp add: round_to_def Let_def k_def [symmetric])
qed

section \<open>Properties of SphereGenerator\<close>

lemma times_NaN [simp]: "x * NaN = NaN" for x :: jsnum
  by (cases x) simp_all

lemma plus_NaN [simp]: "x + NaN = NaN" for x :: jsnum
  by (cases x) simp_all

lemma minus_NaN [simp]: "x - NaN = NaN" "NaN - x = NaN" for x :: jsnum
  by (cases x; simp add: minus_jsnum_def)+

lemma minus_Fin [simp]: "Fin a - Fin b = dbl (a - b)"
  by (simp add: minus_jsnum_def)

lemma length_store3 [simp]: "length (store3 a i x y z) = length a"
  by (simp add: store3_def)

lemma nth_store3:
  "j < length a \<Longrightarrow> store3 a i x y z ! j =
     (if j = i + 2 then fround z else if j = i + 1 then fround y
      else if j = i then fround x else a ! j)"
  by (simp add: store3_def nth_list_update)

lemma fold_store3_length [simp]:
  "length (fold (\<lambda>i a. store3 a (i * 3) (f i) (g i) (h i)) is a) = length a"
  by (induction "is" arbitrary: a) simp_all

lemma fold_store3_nth:
  assumes "i < n" "n * 3 \<le> length a"
  shows "fold (\<lambda>i a. store3 a (i * 3) (f i) (g i) (h i)) [0..<n] a ! (i * 3) = fround (f i)"
    and "fold (\<lambda>i a. store3 a (i * 3) (f i) (g i) (h i)) [0..<n] a ! (i * 3 + 1) = fround (g i)"
    and "fold (\<lambda>i a. store3 a (i * 3) (f i) (g i) (h i)) [0..<n] a ! (i * 3 + 2) = fround (h i)"
  using assms
proof (induction n)
  case 0
  { case 1 then show ?case by simp }
  { case 2 then show ?case by simp }
  { case 3 then show ?case by simp }
next
  case (Suc n)
  { case 1 then show ?case using Suc.IH(1)
      by (cases "i = n") (auto simp: nth_store3) }
  { case 2 then show ?case using Suc.IH(2)
      by (cases "i = n") (auto simp: nth_store3) }
  { case 3 then show ?case using Suc.IH(3)
      by (cases "i = n") (auto simp: nth_store3) }
qed

subsection \<open>The norm of a computed point\<close>

lemma sq_close:
  fixes a b c e :: real
  assumes "\<bar>a\<bar> \<le> c" "\<bar>b\<bar> \<le> c" "\<bar>a - b\<bar> \<le> e"
  shows "\<bar>a\<^sup>2 - b\<^sup>2\<bar> \<le> 2 * c * e"
proof -
  have c: "0 \<le> c" using assms(1) by linarith
  have "a\<^sup>2 - b\<^sup>2 = (a + b) * (a - b)" by (simp add: power2_eq_square algebra_simps)
  then have "\<bar>a\<^sup>2 - b\<^sup>2\<bar> = \<bar>a + b\<bar> * \<bar>a - b\<bar>" by (simp add: abs_mult)
  also have "\<dots> \<le> (2 * c) * e"
    using assms c by (intro mult_mono) linarith+
  finally show ?thesis .
qed

lemma unit_vector:
  fixes x y z u :: real
  assumes y: "\<bar>y\<bar> \<le> 1" and q: "\<bar>q - y * y\<bar> \<le> u"
    and p: "\<bar>p - (1 - q)\<bar> \<le> u" "0 \<le> p" "p \<le> 1"
    and r: "\<bar>r - sqrt p\<bar> \<le> u" "\<bar>r\<bar> \<le> 1"
    and c: "\<bar>c - cos t\<bar> \<le> u" "\<bar>c\<bar> \<le> 1" and s: "\<bar>s - sin t\<bar> \<le> u" "\<bar>s\<bar> \<le> 1"
    and x: "\<bar>x - c * r\<bar> \<le> u" "\<bar>x\<bar> \<le> 1" and z: "\<bar>z - s * r\<bar> \<le> u" "\<bar>z\<bar> \<le> 1"
  shows "\<bar>x\<^sup>2 + y\<^sup>2 + z\<^sup>2 - 1\<bar> \<le> 12 * u"
proof -
  have cr: "\<bar>c * r\<bar> \<le> 1" "\<bar>s * r\<bar> \<le> 1"
    using c(2) s(2) r(2) by (simp_all add: abs_mult mult_le_one)
  have a1: "\<bar>x\<^sup>2 - (c * r)\<^sup>2\<bar> \<le> 2 * u" using sq_close [OF x(2) cr(1) x(1)] by simp
  have a2: "\<bar>z\<^sup>2 - (s * r)\<^sup>2\<bar> \<le> 2 * u" using sq_close [OF z(2) cr(2) z(1)] by simp
  have a3: "\<bar>c\<^sup>2 - (cos t)\<^sup>2\<bar> \<le> 2 * u" using sq_close [OF c(2) _ c(1)] by simp
  have a4: "\<bar>s\<^sup>2 - (sin t)\<^sup>2\<bar> \<le> 2 * u" using sq_close [OF s(2) _ s(1)] by simp
  have "(sin t)\<^sup>2 + (cos t)\<^sup>2 = 1" by (rule sin_cos_squared_add)
  with a3 a4 have a5: "\<bar>c\<^sup>2 + s\<^sup>2 - 1\<bar> \<le> 4 * u" by linarith
  have sp: "\<bar>sqrt p\<bar> \<le> 1" using p(2,3) by simp
  have "(sqrt p)\<^sup>2 = p" using p(2) by simp
  with sq_close [OF r(2) sp r(1)] have a6: "\<bar>r\<^sup>2 - p\<bar> \<le> 2 * u" by simp
  have r2: "r\<^sup>2 \<le> 1" using r(2) by (simp add: abs_square_le_1)
  have "\<bar>r\<^sup>2 * (c\<^sup>2 + s\<^sup>2 - 1)\<bar> = r\<^sup>2 * \<bar>c\<^sup>2 + s\<^sup>2 - 1\<bar>" by (simp add: abs_mult)
  also have "\<dots> \<le> 1 * (4 * u)" using r2 a5 by (intro mult_mono) simp_all
  finally have a7: "\<bar>r\<^sup>2 * (c\<^sup>2 + s\<^sup>2 - 1)\<bar> \<le> 4 * u" by simp
  have e: "(c * r)\<^sup>2 + (s * r)\<^sup>2 = r\<^sup>2 + r\<^sup>2 * (c\<^sup>2 + s\<^sup>2 - 1)"
    by (simp add: power2_eq_square algebra_simps)
  have y2: "y\<^sup>2 = y * y" by (simp add: power2_eq_square)
  show ?thesis using a1 a2 a6 a7 e q p(1) y2 by linarith
qed

lemma scaled_vector:
  fixes x y z R k :: real
  assumes "\<bar>x\<bar> \<le> 1" "\<bar>y\<bar> \<le> 1" "\<bar>z\<bar> \<le> 1" and k: "k \<le> 1"
    and X: "\<bar>X - x * R\<bar> \<le> \<bar>R\<bar> * k" and Y: "\<bar>Y - y * R\<bar> \<le> \<bar>R\<bar> * k"
    and Z: "\<bar>Z - z * R\<bar> \<le> \<bar>R\<bar> * k"
  shows "\<bar>X\<^sup>2 + Y\<^sup>2 + Z\<^sup>2 - R\<^sup>2 * (x\<^sup>2 + y\<^sup>2 + z\<^sup>2)\<bar> \<le> 12 * R\<^sup>2 * k"
proof -
  have one: "\<bar>A\<^sup>2 - (a * R)\<^sup>2\<bar> \<le> 4 * R\<^sup>2 * k"
    if a: "\<bar>a\<bar> \<le> 1" and A: "\<bar>A - a * R\<bar> \<le> \<bar>R\<bar> * k" for a A :: real
  proof -
    have b: "\<bar>a * R\<bar> \<le> \<bar>R\<bar>" using a by (simp add: abs_mult mult_left_le_one_le)
    then have b2: "\<bar>a * R\<bar> \<le> 2 * \<bar>R\<bar>" by linarith
    have "\<bar>R\<bar> * k \<le> \<bar>R\<bar> * 1" using k by (intro mult_left_mono) simp_all
    with A b have "\<bar>A\<bar> \<le> 2 * \<bar>R\<bar>" by linarith
    from sq_close [OF this b2 A] have "\<bar>A\<^sup>2 - (a * R)\<^sup>2\<bar> \<le> 2 * (2 * \<bar>R\<bar>) * (\<bar>R\<bar> * k)" .
    also have "\<dots> = 4 * R\<^sup>2 * k" by (simp add: power2_eq_square)
    finally show ?thesis .
  qed
  have e: "R\<^sup>2 * (x\<^sup>2 + y\<^sup>2 + z\<^sup>2) = (x * R)\<^sup>2 + (y * R)\<^sup>2 + (z * R)\<^sup>2"
    by (simp add: power2_eq_square algebra_simps)
  show ?thesis
    using one [OF assms(1) X] one [OF assms(2) Y] one [OF assms(3) Z] unfolding e by linarith
qed

lemma sqrt_close:
  fixes S R h :: real
  assumes "\<bar>S - R\<^sup>2\<bar> \<le> R\<^sup>2 * h" "0 \<le> h" "h \<le> 1"
  shows "\<bar>sqrt S - \<bar>R\<bar>\<bar> \<le> \<bar>R\<bar> * h"
proof -
  have R2: "0 \<le> R\<^sup>2" by simp
  have ex: "R\<^sup>2 * (1 + h) = R\<^sup>2 + R\<^sup>2 * h" "R\<^sup>2 * (1 - h) = R\<^sup>2 - R\<^sup>2 * h"
    by (simp_all add: algebra_simps)
  have "S \<le> R\<^sup>2 * (1 + h)" using assms(1) unfolding ex by linarith
  also have "\<dots> \<le> R\<^sup>2 * (1 + h)\<^sup>2"
  proof (rule mult_left_mono [OF _ R2])
    have "1 + h \<le> (1 + h) * (1 + h)" using assms(2) by (simp add: algebra_simps)
    then show "1 + h \<le> (1 + h)\<^sup>2" by (simp add: power2_eq_square)
  qed
  also have "\<dots> = (\<bar>R\<bar> * (1 + h))\<^sup>2" by (simp add: power_mult_distrib)
  finally have "sqrt S \<le> \<bar>R\<bar> * (1 + h)"
    using assms(2) by (intro real_le_lsqrt) simp_all
  then have up: "sqrt S - \<bar>R\<bar> \<le> \<bar>R\<bar> * h" by (simp add: algebra_simps)
  have "(\<bar>R\<bar> * (1 - h))\<^sup>2 = R\<^sup>2 * (1 - h)\<^sup>2" by (simp add: power_mult_distrib)
  also have "\<dots> \<le> R\<^sup>2 * (1 - h)"
  proof (rule mult_left_mono [OF _ R2])
    have "(1 - h) * (1 - h) \<le> (1 - h) * 1" using assms(2,3) by (intro mult_left_mono) simp_all
    then show "(1 - h)\<^sup>2 \<le> 1 - h" by (simp add: power2_eq_square)
  qed
  also have "\<dots> \<le> S" using assms(1) unfolding ex by linarith
  finally have "\<bar>R\<bar> * (1 - h) \<le> sqrt S" by (rule real_le_rsqrt)
  then have "\<bar>R\<bar> - sqrt S \<le> \<bar>R\<bar> * h" by (simp add: algebra_simps)
  with up show ?thesis by linarith
qed

lemma abs_mult_unit:
  fixes a b :: real
  assumes "\<bar>a\<bar> \<le> 1" "\<bar>b\<bar> \<le> 1"
  shows "\<bar>a * b\<bar> \<le> 1"
  unfolding abs_mult using assms by (intro mult_le_one) simp_all

lemma goldenAngle_finite:
  "\<exists>g. dbl pi * (Fin 3 - Math_sqrt (Fin 5)) = Fin g \<and> \<bar>g\<bar> \<le> 2 ^ 5"
proof -
  have "\<bar>pi\<bar> \<le> 2 ^ 2" using pi_less_4 pi_gt_zero by simp
  from dbl_bounded [OF this] obtain a where a: "dbl pi = Fin a" "\<bar>a\<bar> \<le> 2 ^ 2" by auto
  have "sqrt 5 \<le> 4" by (rule real_le_lsqrt) simp_all
  then have "\<bar>sqrt 5\<bar> \<le> 2 ^ 2" by simp
  from dbl_bounded [OF this] obtain s where s: "dbl (sqrt 5) = Fin s" "\<bar>s\<bar> \<le> 2 ^ 2" by auto
  have "\<bar>3 - s\<bar> \<le> 2 ^ 3" using s(2) by simp
  from dbl_bounded [OF this] obtain d where d: "dbl (3 - s) = Fin d" "\<bar>d\<bar> \<le> 2 ^ 3" by auto
  have "\<bar>a * d\<bar> \<le> 2 ^ 2 * 2 ^ 3" unfolding abs_mult using a(2) d(2) by (intro mult_mono) simp_all
  then have "\<bar>a * d\<bar> \<le> 2 ^ 5" by simp
  from dbl_bounded [OF this] obtain g where g: "dbl (a * d) = Fin g" "\<bar>g\<bar> \<le> 2 ^ 5" by auto
  show ?thesis using a(1) s(1) d(1) g by simp
qed

lemma theta_finite:
  assumes "\<bar>g\<bar> \<le> 2 ^ 5" "i < 2 ^ 53"
  shows "\<exists>t. Fin g * num i = Fin t"
proof -
  have "real i \<le> 2 ^ 53" using assms(2) by (metis less_imp_le of_nat_le_iff of_nat_numeral of_nat_power)
  then have "\<bar>g * real i\<bar> \<le> 2 ^ 5 * 2 ^ 53"
    unfolding abs_mult using assms(1) by (intro mult_mono) simp_all
  then have "\<bar>g * real i\<bar> \<le> 2 ^ 58" by simp
  from dbl_bounded [OF this] show ?thesis by auto
qed

lemma lattice_y_unit:
  assumes "2 \<le> n" "n < 2 ^ 53" "i < n"
  shows "\<exists>y. Fin 1 - (num i / (num n - Fin 1)) * Fin 2 = Fin y \<and> \<bar>y\<bar> \<le> 1"
proof -
  have "n - 1 < 2 ^ 53" using assms(2) by simp
  from dbl_nat [OF this] have "dbl (real n - 1) = Fin (real (n - 1))"
    using assms(1) by (simp add: of_nat_diff)
  then have m: "num n - Fin 1 = Fin (real (n - 1))" by simp
  have n1: "real (n - 1) \<noteq> 0" "0 < real (n - 1)" using assms(1) by simp_all
  have "real i \<le> real (n - 1)" using assms(3) by simp
  then have "\<bar>real i / real (n - 1)\<bar> \<le> 1" using n1 by (simp add: field_simps)
  from dbl_unit [OF this] obtain t where
    t: "dbl (real i / real (n - 1)) = Fin t" "\<bar>t\<bar> \<le> 1" "0 \<le> t" using n1 by auto
  have "\<bar>t * 2\<bar> \<le> 2 ^ 1" using t(2) by simp
  from dbl_bounded [OF this] obtain w where
    w: "dbl (t * 2) = Fin w" "\<bar>w\<bar> \<le> 2 ^ 1" "0 \<le> w" using t(3) by auto
  have "\<bar>1 - w\<bar> \<le> 1" using w(2,3) by simp
  from dbl_unit [OF this] obtain y where y: "dbl (1 - w) = Fin y" "\<bar>y\<bar> \<le> 1" by auto
  have "Fin 1 - (num i / (num n - Fin 1)) * Fin 2 = Fin y"
    unfolding m using n1(1) t(1) w(1) y(1) by simp
  with y(2) show ?thesis by blast
qed

lemma combine_bounds:
  fixes S B W :: real
  assumes "\<bar>S - B\<bar> \<le> 12 * W * (1 / 2 ^ 21)" "\<bar>B - W\<bar> \<le> W * (12 * (1 / 2 ^ 40))" "0 \<le> W"
  shows "\<bar>S - W\<bar> \<le> W * (1 / 2 ^ 17)"
proof -
  have bound: "c \<le> W * (1 / 2 ^ 17)"
    if "a \<le> 12 * W * (1 / 2 ^ 21)" "b \<le> W * (12 * (1 / 2 ^ 40))" "c \<le> a + b"
    for a b c :: real
    using that assms(3) by simp
  have "\<bar>S - W\<bar> \<le> \<bar>S - B\<bar> + \<bar>B - W\<bar>" by linarith
  with assms(1,2) show ?thesis by (rule bound)
qed

lemma generate_point:
  assumes n: "2 \<le> n" "n < 2 ^ 53" "i < n" and g: "\<bar>g\<bar> \<le> 2 ^ 5"
    and R: "1 / 2 ^ 100 \<le> \<bar>R\<bar>" "\<bar>R\<bar> \<le> 2 ^ 100"
    and y': "y' = Fin 1 - (num i / (num n - Fin 1)) * Fin 2"
    and r': "r' = Math_sqrt (Fin 1 - y' * y')"
    and cs: "\<forall>t. \<exists>c. cosine (Fin t) = Fin c \<and> \<bar>c - cos t\<bar> \<le> 1 / 2 ^ 40 \<and> \<bar>c\<bar> \<le> 1"
    and sn: "\<forall>t. \<exists>s. sine (Fin t) = Fin s \<and> \<bar>s - sin t\<bar> \<le> 1 / 2 ^ 40 \<and> \<bar>s\<bar> \<le> 1"
  shows "\<exists>X Y Z. fround (cosine (Fin g * num i) * r' * Fin R) = Fin X
           \<and> fround (y' * Fin R) = Fin Y
           \<and> fround (sine (Fin g * num i) * r' * Fin R) = Fin Z
           \<and> \<bar>sqrt (X\<^sup>2 + Y\<^sup>2 + Z\<^sup>2) - \<bar>R\<bar>\<bar> \<le> \<bar>R\<bar> / 2 ^ 17"
proof -
  define u :: real where "u = 1 / 2 ^ 40"
  have uu: "(1 / 2 ^ 53 :: real) \<le> u" unfolding u_def by simp
  from lattice_y_unit [OF n] obtain y where y: "y' = Fin y" "\<bar>y\<bar> \<le> 1" unfolding y' by blast
  have "\<bar>y * y\<bar> \<le> 1" using y(2) y(2) by (rule abs_mult_unit)
  from dbl_unit [OF this] obtain q where
    q: "dbl (y * y) = Fin q" "\<bar>q - y * y\<bar> \<le> u" "\<bar>q\<bar> \<le> 1" "0 \<le> q"
    using uu by fastforce
  have "\<bar>1 - q\<bar> \<le> 1" using q(3,4) by simp
  from dbl_unit [OF this] obtain p where
    p: "dbl (1 - q) = Fin p" "\<bar>p - (1 - q)\<bar> \<le> u" "\<bar>p\<bar> \<le> 1" "0 \<le> p"
    using q(3,4) uu by fastforce
  have p1: "p \<le> 1" using p(3) by simp
  have "\<bar>sqrt p\<bar> \<le> 1" using p(4) p1 by simp
  from dbl_unit [OF this] obtain r where
    r: "dbl (sqrt p) = Fin r" "\<bar>r - sqrt p\<bar> \<le> u" "\<bar>r\<bar> \<le> 1" using uu by fastforce
  have r'': "r' = Fin r" unfolding r' y(1) using q(1) p(1,4) r(1) by simp
  have "i < 2 ^ 53" using n(2,3) by simp
  from theta_finite [OF g this] obtain t where t: "Fin g * num i = Fin t" by blast
  from cs obtain c where
    c: "cosine (Fin t) = Fin c" "\<bar>c - cos t\<bar> \<le> u" "\<bar>c\<bar> \<le> 1" unfolding u_def by blast
  from sn obtain s where
    s: "sine (Fin t) = Fin s" "\<bar>s - sin t\<bar> \<le> u" "\<bar>s\<bar> \<le> 1" unfolding u_def by blast
  have "\<bar>c * r\<bar> \<le> 1" using c(3) r(3) by (rule abs_mult_unit)
  from dbl_unit [OF this] obtain x where
    x: "dbl (c * r) = Fin x" "\<bar>x - c * r\<bar> \<le> u" "\<bar>x\<bar> \<le> 1" using uu by fastforce
  have "\<bar>s * r\<bar> \<le> 1" using s(3) r(3) by (rule abs_mult_unit)
  from dbl_unit [OF this] obtain z where
    z: "dbl (s * r) = Fin z" "\<bar>z - s * r\<bar> \<le> u" "\<bar>z\<bar> \<le> 1" using uu by fastforce
  have ex: "cosine (Fin g * num i) * r' = Fin x" "sine (Fin g * num i) * r' = Fin z"
    unfolding t r'' using c(1) s(1) x(1) z(1) by simp_all
  have V: "\<bar>x\<^sup>2 + y\<^sup>2 + z\<^sup>2 - 1\<bar> \<le> 12 * u"
    by (rule unit_vector [OF y(2) q(2) p(2) p(4) p1 r(2,3) c(2,3) s(2,3) x(2,3) z(2,3)])
  from store_coord [OF x(3) R] obtain X where
    X: "fround (Fin x * Fin R) = Fin X" "\<bar>X - x * R\<bar> \<le> \<bar>R\<bar> / 2 ^ 21" by blast
  from store_coord [OF y(2) R] obtain Y where
    Y: "fround (Fin y * Fin R) = Fin Y" "\<bar>Y - y * R\<bar> \<le> \<bar>R\<bar> / 2 ^ 21" by blast
  from store_coord [OF z(3) R] obtain Z where
    Z: "fround (Fin z * Fin R) = Fin Z" "\<bar>Z - z * R\<bar> \<le> \<bar>R\<bar> / 2 ^ 21" by blast
  have k: "(1 / 2 ^ 21 :: real) \<le> 1" by simp
  have "\<bar>X\<^sup>2 + Y\<^sup>2 + Z\<^sup>2 - R\<^sup>2 * (x\<^sup>2 + y\<^sup>2 + z\<^sup>2)\<bar> \<le> 12 * R\<^sup>2 * (1 / 2 ^ 21)"
    using X(2) Y(2) Z(2) by (intro scaled_vector [OF x(3) y(2) z(3) k]) simp_all
  moreover have "\<bar>R\<^sup>2 * (x\<^sup>2 + y\<^sup>2 + z\<^sup>2) - R\<^sup>2\<bar> \<le> R\<^sup>2 * (12 * u)"
  proof -
    have "R\<^sup>2 * (x\<^sup>2 + y\<^sup>2 + z\<^sup>2) - R\<^sup>2 = R\<^sup>2 * (x\<^sup>2 + y\<^sup>2 + z\<^sup>2 - 1)"
      by (simp add: algebra_simps)
    then have "\<bar>R\<^sup>2 * (x\<^sup>2 + y\<^sup>2 + z\<^sup>2) - R\<^sup>2\<bar> = R\<^sup>2 * \<bar>x\<^sup>2 + y\<^sup>2 + z\<^sup>2 - 1\<bar>"
      by (simp add: abs_mult)
    also have "\<dots> \<le> R\<^sup>2 * (12 * u)" using V by (intro mult_left_mono) simp_all
    finally show ?thesis .
  qed
  moreover have "0 \<le> R\<^sup>2" by simp
  ultimately have "\<bar>X\<^sup>2 + Y\<^sup>2 + Z\<^sup>2 - R\<^sup>2\<bar> \<le> R\<^sup>2 * (1 / 2 ^ 17)"
    unfolding u_def by (rule combine_bounds)
  then have "\<bar>sqrt (X\<^sup>2 + Y\<^sup>2 + Z\<^sup>2) - \<bar>R\<bar>\<bar> \<le> \<bar>R\<bar> * (1 / 2 ^ 17)"
    by (rule sqrt_close) simp_all
  then show ?thesis using X(1) Y(1) Z(1) unfolding ex y(1) by auto
qed

lemma generate_body_store3:
  "generate_body cosine sine cnt rad ga =
     (\<lambda>i a. store3 a (i * 3)
        (cosine (ga * num i)
           * Math_sqrt (Fin 1 - (Fin 1 - (num i / (num cnt - Fin 1)) * Fin 2)
                                * (Fin 1 - (num i / (num cnt - Fin 1)) * Fin 2)) * rad)
        ((Fin 1 - (num i / (num cnt - Fin 1)) * Fin 2) * rad)
        (sine (ga * num i)
           * Math_sqrt (Fin 1 - (Fin 1 - (num i / (num cnt - Fin 1)) * Fin 2)
                                * (Fin 1 - (num i / (num cnt - Fin 1)) * Fin 2)) * rad))"
  unfolding generate_body_def Let_def by (intro ext) (rule refl)

lemma length_generate_with:
  "length (generate_with cosine sine opts) = 3 * or_count (count opts) 1000"
  by (simp add: generate_with_def Let_def generate_body_store3)

lemma Math_cos_accurate:
  "\<forall>t. \<exists>c. Math_cos (Fin t) = Fin c \<and> \<bar>c - cos t\<bar> \<le> 1 / 2 ^ 40 \<and> \<bar>c\<bar> \<le> 1"
proof
  fix t
  have "(1 / 2 ^ 53 :: real) \<le> 1 / 2 ^ 40" by simp
  with dbl_unit [of "cos t"] show "\<exists>c. Math_cos (Fin t) = Fin c \<and> \<bar>c - cos t\<bar> \<le> 1 / 2 ^ 40 \<and> \<bar>c\<bar> \<le> 1"
    by fastforce
qed

lemma Math_sin_accurate:
  "\<forall>t. \<exists>s. Math_sin (Fin t) = Fin s \<and> \<bar>s - sin t\<bar> \<le> 1 / 2 ^ 40 \<and> \<bar>s\<bar> \<le> 1"
proof
  fix t
  have "(1 / 2 ^ 53 :: real) \<le> 1 / 2 ^ 40" by simp
  with dbl_unit [of "sin t"] show "\<exists>s. Math_sin (Fin t) = Fin s \<and> \<bar>s - sin t\<bar> \<le> 1 / 2 ^ 40 \<and> \<bar>s\<bar> \<le> 1"
    by fastforce
qed

lemma f32_overflow:
  assumes a: "a = 2 ^ 128"
  shows "f32 a = PInf"
proof -
  have "log 2 ((2::real) ^ 128) = real 128 * log 2 2" by (rule log_nat_power) simp
  moreover have "\<bar>a\<bar> = a" unfolding a by simp
  ultimately have l: "log 2 \<bar>a\<bar> = 128" unfolding a by simp
  have k: "ulp_exp 24 (- 126) a = 105" by (simp add: ulp_exp_def l)
  have p: "a = of_int 1 * 2 powr of_int 128"
    unfolding a by (simp add: powr_realpow [symmetric] del: powr_numeral)
  have n: "nearest 105 a = a" by (rule nearest_exact [OF p]) simp
  have "2 powr of_int 128 \<le> \<bar>a\<bar>" using p by simp
  moreover have "0 < a" "a \<noteq> 0" using p by simp_all
  ultimately show ?thesis by (simp add: f32_def round_to_def k n del: powr_numeral)
qed

lemma dbl_2_128:
  assumes a: "a = 2 ^ 128"
  shows "dbl a = Fin a"
proof -
  have p: "a = of_int 1 * 2 powr of_int 128"
    unfolding a by (simp add: powr_realpow [symmetric] del: powr_numeral)
  have "(2::real) powr of_int 128 < 2 powr of_int 1024" by simp
  then have "\<bar>a\<bar> < 2 powr of_int 1024" using p by simp
  from round_to_exact [OF p _ _ this, of 53 "- 1022"] show ?thesis by (simp add: dbl_def)
qed

lemma generate_overflow:
  "generate \<lparr>count = Some 2, radius = Some (Fin (2 ^ 128))\<rparr> ! 1 = PInf"
proof -
  define a :: real where "a = 2 ^ 128"
  have a: "a = 2 ^ 128" by (rule a_def)
  have nz: "a \<noteq> 0" unfolding a by simp
  have l: "2 * 3 \<le> length (replicate (2 * 3) (Fin 0))" by simp
  have "generate \<lparr>count = Some 2, radius = Some (Fin a)\<rparr> ! (0 * 3 + 1) = PInf"
    unfolding generate_def generate_with_def Let_def generate_body_store3
    by (simp add: fold_store3_nth(2) [of 0 2, simplified] nz dbl_2_128 [OF a] f32_overflow [OF a]
        dbl_numeral)
  then show ?thesis by (simp add: a)
qed

text \<open>
  C1 (as amended). For a count from \<open>2\<close> on that is a safe integer, a radius whose
  effective value \<open>radius || 1\<close> is a finite \<open>R\<close> with \<open>2 ^ -100 \<le> \<bar>R\<bar> \<le> 2 ^ 100\<close>, and an
  engine whose \<open>Math.cos\<close> and \<open>Math.sin\<close> give numbers of magnitude at most \<open>1\<close> within
  \<open>2 ^ -40\<close> of the cosine and the sine, \<open>generate\<close> returns \<open>3 * count\<close> numbers, and
  every point of the buffer, as stored in singles, has a norm within \<open>\<bar>R\<bar> / 2 ^ 17\<close> of
  \<open>\<bar>R\<bar>\<close>. The norm is that of the stored numbers, taken exactly.
\<close>

theorem generate_on_sphere:
  assumes "2 \<le> n" and "n < 2 ^ 53" and "or_default ro (Fin 1) = Fin R"
    and "1 / 2 ^ 100 \<le> \<bar>R\<bar>" and "\<bar>R\<bar> \<le> 2 ^ 100" and "i < n"
    and "\<forall>t. \<exists>c. cosine (Fin t) = Fin c \<and> \<bar>c - cos t\<bar> \<le> 1 / 2 ^ 40 \<and> \<bar>c\<bar> \<le> 1"
    and "\<forall>t. \<exists>s. sine (Fin t) = Fin s \<and> \<bar>s - sin t\<bar> \<le> 1 / 2 ^ 40 \<and> \<bar>s\<bar> \<le> 1"
  shows "length (generate_with cosine sine \<lparr>count = Some n, radius = ro\<rparr>) = 3 * n
       \<and> (\<exists>x y z. generate_with cosine sine \<lparr>count = Some n, radius = ro\<rparr> ! (i * 3) = Fin x
              \<and> generate_with cosine sine \<lparr>count = Some n, radius = ro\<rparr> ! (i * 3 + 1) = Fin y
              \<and> generate_with cosine sine \<lparr>count = Some n, radius = ro\<rparr> ! (i * 3 + 2) = Fin z
              \<and> \<bar>sqrt (x\<^sup>2 + y\<^sup>2 + z\<^sup>2) - \<bar>R\<bar>\<bar> \<le> \<bar>R\<bar> / 2 ^ 17)"
proof -
  let ?gen = "generate_with cosine sine \<lparr>count = Some n, radius = ro\<rparr>"
  obtain g where g: "dbl pi * (Fin 3 - Math_sqrt (Fin 5)) = Fin g" "\<bar>g\<bar> \<le> 2 ^ 5"
    using goldenAngle_finite by blast
  define y' where "y' = Fin 1 - (num i / (num n - Fin 1)) * Fin 2"
  define r' where "r' = Math_sqrt (Fin 1 - y' * y')"
  from generate_point [OF assms(1,2,6) g(2) assms(4,5) y'_def r'_def assms(7,8)]
  obtain X Y Z where p: "fround (cosine (Fin g * num i) * r' * Fin R) = Fin X"
      "fround (y' * Fin R) = Fin Y" "fround (sine (Fin g * num i) * r' * Fin R) = Fin Z"
      "\<bar>sqrt (X\<^sup>2 + Y\<^sup>2 + Z\<^sup>2) - \<bar>R\<bar>\<bar> \<le> \<bar>R\<bar> / 2 ^ 17"
    by blast
  have l: "n * 3 \<le> length (replicate (n * 3) (Fin 0))" by simp
  have g': "dbl pi * (Fin 3 - dbl (sqrt 5)) = Fin g" using g(1) by simp
  have gen: "?gen = fold (generate_body cosine sine n (Fin R) (Fin g)) [0..<n]
                      (replicate (n * 3) (Fin 0))"
    using assms(1) by (simp add: generate_with_def Let_def assms(3) g')
  have "?gen ! (i * 3) = Fin X"
    unfolding gen generate_body_store3 fold_store3_nth(1) [OF assms(6) l]
    using p(1) by (simp only: y'_def r'_def)
  moreover have "?gen ! (i * 3 + 1) = Fin Y"
    unfolding gen generate_body_store3 fold_store3_nth(2) [OF assms(6) l]
    using p(2) by (simp only: y'_def r'_def)
  moreover have "?gen ! (i * 3 + 2) = Fin Z"
    unfolding gen generate_body_store3 fold_store3_nth(3) [OF assms(6) l]
    using p(3) by (simp only: y'_def r'_def)
  moreover have "length ?gen = 3 * n"
    using assms(1) by (simp add: length_generate_with)
  ultimately show ?thesis using p(4) by blast
qed

theorem generate_on_sphere_witness:
  "length (generate \<lparr>count = Some 100, radius = Some (Fin 1)\<rparr>) = 300
   \<and> (\<exists>x y z. generate \<lparr>count = Some 100, radius = Some (Fin 1)\<rparr> ! 171 = Fin x
          \<and> generate \<lparr>count = Some 100, radius = Some (Fin 1)\<rparr> ! 172 = Fin y
          \<and> generate \<lparr>count = Some 100, radius = Some (Fin 1)\<rparr> ! 173 = Fin z
          \<and> \<bar>sqrt (x\<^sup>2 + y\<^sup>2 + z\<^sup>2) - 1\<bar> \<le> 1 / 2 ^ 17)"
  using generate_on_sphere [of 100 "Some (Fin 1)" 1 57 Math_cos Math_sin]
    Math_cos_accurate Math_sin_accurate
  by (simp add: generate_def)

text \<open>
  C1 as stated fails for the radius \<open>0\<close>: the source takes \<open>radius || 1\<close>, and the two
  points of a request with \<open>count = 2\<close> and \<open>radius = 0\<close> are the poles of the unit sphere,
  at the distance \<open>1\<close> from the origin, not \<open>0\<close>. It fails for the radius \<open>2 ^ 128\<close>
  too, which is a double but overflows the singles of the buffer: the first point has
  the coordinate \<open>Infinity\<close>.
\<close>

theorem generate_radius_counterexample:
  "generate \<lparr>count = Some 2, radius = Some (Fin 0)\<rparr>
     = [Fin 0, Fin 1, Fin 0, Fin 0, Fin (- 1), Fin 0]
   \<and> generate \<lparr>count = Some 2, radius = Some (Fin (2 ^ 128))\<rparr> ! 1 = PInf"
proof (rule conjI [OF _ generate_overflow])
  obtain g where g: "dbl pi * (Fin 3 - Math_sqrt (Fin 5)) = Fin g" "\<bar>g\<bar> \<le> 2 ^ 5"
    using goldenAngle_finite by blast
  from dbl_bounded [of g 5] g(2) obtain t where t: "dbl g = Fin t" by auto
  from dbl_unit [of "cos t"] obtain c where c: "dbl (cos t) = Fin c" by auto
  from dbl_unit [of "sin t"] obtain s where s: "dbl (sin t) = Fin s" by auto
  have g': "dbl pi * (Fin 3 - dbl (sqrt 5)) = Fin g" using g(1) by simp
  have m: "dbl (- 1) = Fin (- 1)" using dbl_int [of "- 1"] by simp
  have f: "f32 (- 1) = Fin (- 1)" using f32_int [of "- 1"] by simp
  have r: "replicate 6 (Fin 0) = [Fin 0, Fin 0, Fin 0, Fin 0, Fin 0, Fin 0]"
    by (simp add: eval_nat_numeral)
  have "generate \<lparr>count = Some 2, radius = Some (Fin 0)\<rparr>
      = [Fin 0, Fin 0, Fin 0, Fin 0, Fin 0, Fin 0]
          [0 := Fin 0, Suc 0 := Fin 1, Suc (Suc 0) := Fin 0,
           3 := Fin 0, 4 := Fin (- 1), 5 := Fin 0]"
    by (simp add: generate_def generate_with_def Let_def g' generate_body_def store3_def
        numeral_2_eq_2 dbl_numeral t c s m f r)
  also have "\<dots> = [Fin 0, Fin 1, Fin 0, Fin 0, Fin (- 1), Fin 0]"
    by (simp add: eval_nat_numeral)
  finally show "generate \<lparr>count = Some 2, radius = Some (Fin 0)\<rparr>
     = [Fin 0, Fin 1, Fin 0, Fin 0, Fin (- 1), Fin 0]" .
qed

subsection \<open>The degenerate count\<close>

text \<open>
  C7. For \<open>count = 1\<close> the source divides \<open>0\<close> by \<open>count - 1 = 0\<close>: there is no special
  case, and the only point returned has the coordinates NaN, NaN, NaN, whatever the
  radius.
\<close>

theorem generate_count_one_is_NaN:
  "generate \<lparr>count = Some 1, radius = r\<rparr> = [NaN, NaN, NaN]"
  by (simp add: generate_def generate_with_def generate_body_def store3_def inf_of_def Let_def
      numeral_3_eq_3)

subsection \<open>The rejection loop\<close>

lemma draw_step:
  "draw_in_sphere rand p =
     (if in_ball rand p
      then Some ((Fin (rand p) * Fin 2 - Fin 1, Fin (rand (p + 1)) * Fin 2 - Fin 1,
                  Fin (rand (p + 2)) * Fin 2 - Fin 1), p + 3)
      else draw_in_sphere rand (p + 3))"
  by (subst draw_in_sphere.simps) (simp add: in_ball_def Let_def)

lemma draw_terminates:
  "in_ball rand (p + 3 * k) \<Longrightarrow> \<exists>v p'. draw_in_sphere rand p = Some (v, p')"
proof (induction k arbitrary: p)
  case 0
  then show ?case by (subst draw_step) simp
next
  case (Suc k)
  have "in_ball rand ((p + 3) + 3 * k)" using Suc.prems by (simp add: add.assoc)
  from Suc.IH [OF this] show ?case by (subst draw_step) auto
qed

lemma draw_Some_in_ball:
  assumes a: "draw_in_sphere rand p = Some r"
  shows "\<exists>k. in_ball rand (p + 3 * k)"
proof (rule draw_in_sphere.raw_induct
    [rotated, where P = "\<lambda>rand p r. \<exists>k. in_ball rand (p + 3 * k)", OF a], goal_cases)
  case (1 f rand q r)
  show ?case
  proof (cases "in_ball rand q")
    case True
    then have "in_ball rand (q + 3 * 0)" by simp
    then show ?thesis by blast
  next
    case False
    then have "f rand (q + 3) = Some r" using 1(2)
      by (simp add: in_ball_def Let_def split: if_splits)
    from 1(1) [OF this] obtain k where "in_ball rand (q + 3 + 3 * k)" by blast
    then have "in_ball rand (q + 3 * Suc k)" by (simp add: add.assoc)
    then show ?thesis by blast
  qed
qed

lemma draw_never:
  "\<forall>k. \<not> in_ball rand (p + 3 * k) \<Longrightarrow> draw_in_sphere rand p = None"
  using draw_Some_in_ball [of rand p] by (cases "draw_in_sphere rand p") auto

lemma length_generateVolume_loop:
  "generateVolume_loop rand rad is (ps, p) = Some (ps', p') \<Longrightarrow> length ps' = length ps"
  by (induction "is" arbitrary: ps p) (auto split: option.splits)

lemma generateVolume_loop_terminates:
  assumes "\<forall>p. \<exists>k. in_ball rand (p + 3 * k)"
  shows "\<exists>ps' p'. generateVolume_loop rand rad is (ps, p) = Some (ps', p')"
proof (induction "is" arbitrary: ps p)
  case Nil
  then show ?case by simp
next
  case (Cons i "is")
  from assms obtain k where "in_ball rand (p + 3 * k)" by blast
  from draw_terminates [OF this] obtain x y z q where "draw_in_sphere rand p = Some ((x, y, z), q)"
    by (metis prod_cases3)
  then show ?case using Cons.IH by simp
qed

lemma generateVolume_never:
  assumes "\<forall>k. \<not> in_ball rand (p + 3 * k)"
  shows "generateVolume rand opts p = None"
proof -
  have "0 < or_count (count opts) 1000" by (cases "count opts") simp_all
  then have "[0..<or_count (count opts) 1000] = 0 # [1..<or_count (count opts) 1000]"
    by (simp add: upt_conv_Cons)
  then show ?thesis by (simp add: generateVolume_def Let_def draw_never [OF assms])
qed

lemma dbl_31_32: "dbl (31 / 32) = Fin (31 / 32)"
  using dbl_dyadic [of 31 5] by simp

lemma dbl_63_32: "dbl (63 / 32) = Fin (63 / 32)"
  using dbl_dyadic [of 63 5] by simp

lemma dbl_961_1024: "dbl (961 / 1024) = Fin (961 / 1024)"
  using dbl_dyadic [of 961 10] by simp

lemma dbl_961_512: "dbl (961 / 512) = Fin (961 / 512)"
  using dbl_dyadic [of 961 9] by simp

lemma dbl_2883_1024: "dbl (2883 / 1024) = Fin (2883 / 1024)"
  using dbl_dyadic [of 2883 10] by simp

lemma in_ball_centre:
  assumes "rand p = 1 / 2" "rand (p + 1) = 1 / 2" "rand (p + 2) = 1 / 2"
  shows "in_ball rand p"
  unfolding in_ball_def assms by simp

lemma in_ball_corner:
  assumes "rand p = 63 / 64" "rand (p + 1) = 63 / 64" "rand (p + 2) = 63 / 64"
  shows "\<not> in_ball rand p"
  unfolding in_ball_def assms
  by (simp add: dbl_31_32 dbl_63_32 dbl_961_1024 dbl_961_512 dbl_2883_1024)

text \<open>
  C9 (as amended). The rejection loop of \<open>generateVolume\<close> has no cap on its attempts
  and no fallback point. It returns, with \<open>count\<close> points, for every source of draws
  that from every cursor on reaches a round of three draws the test of the loop accepts
  after finitely many rounds; and it never returns for a source none of whose rounds
  from the first cursor on is accepted. The test is the one the source computes, in
  doubles.
\<close>

theorem generateVolume_terminates:
  "((\<forall>p. \<exists>k. in_ball rand (p + 3 * k)) \<longrightarrow>
      (\<exists>ps p'. generateVolume rand opts p0 = Some (ps, p')
               \<and> length ps = 3 * or_count (count opts) 1000))
   \<and> ((\<forall>k. \<not> in_ball rand (p0 + 3 * k)) \<longrightarrow> generateVolume rand opts p0 = None)"
proof (intro conjI impI)
  assume a: "\<forall>p. \<exists>k. in_ball rand (p + 3 * k)"
  let ?n = "or_count (count opts) 1000"
  obtain ps p' where r: "generateVolume_loop rand (or_default (radius opts) (Fin 1)) [0..<?n]
       (replicate (?n * 3) (Fin 0), p0) = Some (ps, p')"
    using generateVolume_loop_terminates [OF a] by blast
  from length_generateVolume_loop [OF r] have "length ps = 3 * ?n" by simp
  with r show "\<exists>ps p'. generateVolume rand opts p0 = Some (ps, p') \<and> length ps = 3 * ?n"
    by (simp add: generateVolume_def Let_def)
next
  assume "\<forall>k. \<not> in_ball rand (p0 + 3 * k)"
  then show "generateVolume rand opts p0 = None" by (rule generateVolume_never)
qed

theorem generateVolume_terminates_witness:
  "\<not> in_ball late_rand 0
   \<and> (\<exists>ps p'. generateVolume late_rand \<lparr>count = Some 2, radius = None\<rparr> 0 = Some (ps, p')
           \<and> length ps = 6)
   \<and> generateVolume stuck_rand \<lparr>count = Some 3, radius = Some (Fin 2)\<rparr> 5 = None"
proof -
  have 1: "\<not> in_ball late_rand 0"
    by (rule in_ball_corner) (simp_all add: late_rand_def)
  have "in_ball late_rand (p + 3 * 1)" for p
    by (rule in_ball_centre) (simp_all add: late_rand_def)
  then have 2: "\<forall>p. \<exists>k. in_ball late_rand (p + 3 * k)" by blast
  have 3: "\<forall>k. \<not> in_ball stuck_rand (5 + 3 * k)"
    by (intro allI in_ball_corner) (simp_all add: stuck_rand_def)
  from generateVolume_terminates [of late_rand "\<lparr>count = Some 2, radius = None\<rparr>" 0] 2
  have "\<exists>ps p'. generateVolume late_rand \<lparr>count = Some 2, radius = None\<rparr> 0 = Some (ps, p')
           \<and> length ps = 6" by simp
  moreover from generateVolume_terminates
      [of stuck_rand "\<lparr>count = Some 3, radius = Some (Fin 2)\<rparr>" 5] 3
  have "generateVolume stuck_rand \<lparr>count = Some 3, radius = Some (Fin 2)\<rparr> 5 = None" by simp
  ultimately show ?thesis using 1 by simp
qed

text \<open>
  C9 as stated fails: for the source whose every draw is \<open>63/64\<close> every round is the
  point \<open>(31/32, 31/32, 31/32)\<close> outside the ball, the loop of the first point never
  ends, and \<open>generateVolume\<close> returns nothing.
\<close>

theorem generateVolume_stuck_counterexample:
  "generateVolume stuck_rand \<lparr>count = Some 1, radius = None\<rparr> 0 = None"
  by (rule generateVolume_never) (simp add: in_ball_corner stuck_rand_def)

section \<open>Properties of ParticleSystem\<close>

lemma flag_given [simp]: "flag (given b False) = flag b"
  by (cases b) simp_all

lemma initConnections_frame [simp]:
  "data (initConnections s) = data s"
  "options (initConnections s) = options s"
  "animatedPositions (initConnections s) = animatedPositions s"
  "time (initConnections s) = time s"
  by (simp_all add: initConnections_def Let_def)

lemma construct_Inr:
  assumes "construct d opts = Inr s"
  shows "data s = d" and "options s = merge_options opts" and "animatedPositions s = positions d"
  using assms by (auto simp: construct_def Let_def split: sum.splits if_splits)

lemma run_static:
  assumes "\<not> flag (animated (options s))" "\<not> flag (interactive (options s))"
  shows "run s ticks = s"
  using assms by (induction ticks) (auto simp: update_def)

text \<open>
  C2. In a system constructed with \<open>animated\<close> and \<open>interactive\<close> both off (absent or
  false), a call of \<open>update\<close> changes nothing, whatever the time step and the pointer; so
  after every run of ticks the working positions are the positions of the data, which
  are still the positions the system was constructed with.
\<close>

theorem update_static_keeps_positions:
  assumes "construct d opts = Inr s"
    and "\<not> flag (animated opts)" and "\<not> flag (interactive opts)"
  shows "update s deltaTime mouse = s
       \<and> animatedPositions (run s ticks) = positions (data (run s ticks))
       \<and> positions (data (run s ticks)) = positions d"
proof -
  have o: "\<not> flag (animated (options s))" "\<not> flag (interactive (options s))"
    using assms by (simp_all add: construct_Inr(2) [OF assms(1)] merge_options_def)
  have "run s ticks = s" by (rule run_static [OF o])
  moreover have "update s deltaTime mouse = s" using o by (simp add: update_def)
  ultimately show ?thesis by (simp add: construct_Inr [OF assms(1)])
qed

theorem update_static_keeps_positions_witness:
  "construct \<lparr>positions = [Fin 1, Fin 2, Fin 3], colors = [Fin 1, Fin 1, Fin 1],
              sizes = [Fin 1], data_count = 1\<rparr>
     \<lparr>animated = Some False, animationSpeed = None, animationRadius = None, connected = None,
      connectionDistance = None, interactive = None, mouseInfluence = None, mouseRadius = None\<rparr>
   = Inr \<lparr>data = \<lparr>positions = [Fin 1, Fin 2, Fin 3], colors = [Fin 1, Fin 1, Fin 1],
                     sizes = [Fin 1], data_count = 1\<rparr>,
           options = \<lparr>animated = Some False, animationSpeed = Some (Fin 1),
                      animationRadius = Some (dbl (1 / 10)), connected = Some False,
                      connectionDistance = Some (Fin 1), interactive = Some False,
                      mouseInfluence = Some (Fin 1), mouseRadius = Some (Fin 2)\<rparr>,
           animatedPositions = [Fin 1, Fin 2, Fin 3], time = Fin 0, connections = None\<rparr>
   \<and> animatedPositions (run
        \<lparr>data = \<lparr>positions = [Fin 1, Fin 2, Fin 3], colors = [Fin 1, Fin 1, Fin 1],
                     sizes = [Fin 1], data_count = 1\<rparr>,
           options = \<lparr>animated = Some False, animationSpeed = Some (Fin 1),
                      animationRadius = Some (dbl (1 / 10)), connected = Some False,
                      connectionDistance = Some (Fin 1), interactive = Some False,
                      mouseInfluence = Some (Fin 1), mouseRadius = Some (Fin 2)\<rparr>,
           animatedPositions = [Fin 1, Fin 2, Fin 3], time = Fin 0, connections = None\<rparr>
        [(Fin 5, Some (Fin 1, Fin 2, Fin 3)), (Fin 7, None)]) = [Fin 1, Fin 2, Fin 3]"
proof -
  let ?d = "\<lparr>positions = [Fin 1, Fin 2, Fin 3], colors = [Fin 1, Fin 1, Fin 1],
              sizes = [Fin 1], data_count = 1\<rparr>"
  let ?o = "\<lparr>animated = Some False, animationSpeed = None, animationRadius = None,
      connected = None, connectionDistance = None, interactive = None, mouseInfluence = None,
      mouseRadius = None\<rparr>"
  let ?s = "\<lparr>data = ?d,
           options = \<lparr>animated = Some False, animationSpeed = Some (Fin 1),
                      animationRadius = Some (dbl (1 / 10)), connected = Some False,
                      connectionDistance = Some (Fin 1), interactive = Some False,
                      mouseInfluence = Some (Fin 1), mouseRadius = Some (Fin 2)\<rparr>,
           animatedPositions = [Fin 1, Fin 2, Fin 3], time = Fin 0, connections = None\<rparr>"
  have c: "construct ?d ?o = Inr ?s"
    by (simp add: construct_def initGeometry_def merge_options_def)
  have a: "\<not> flag (animated ?o)" and i: "\<not> flag (interactive ?o)" by simp_all
  from update_static_keeps_positions [OF c a i, of "Fin 5" None
      "[(Fin 5, Some (Fin 1, Fin 2, Fin 3)), (Fin 7, None)]"] c
  show ?thesis by simp
qed

text \<open>
  C10. The constructor succeeds exactly when the length of the positions is divisible by
  \<open>3\<close>, the colours have the length \<open>3 * count\<close> and the sizes have the length \<open>count\<close>;
  otherwise it throws and there is no system.
\<close>

theorem construct_checks_lengths:
  "(if length (positions d) mod 3 = 0 \<and> length (colors d) = data_count d * 3
        \<and> length (sizes d) = data_count d
    then \<exists>s. construct d opts = Inr s \<and> data s = d \<and> animatedPositions s = positions d
    else \<exists>e. construct d opts = Inl e)"
  by (simp add: construct_def initGeometry_def Let_def)

section \<open>Properties of ModelGenerator\<close>

subsection \<open>Extraction\<close>

lemma samplingStep_nat: "samplingStep t = max 1 ((t + 14999) div 15000)"
proof -
  define q where "q = (t + 14999) div 15000"
  have e: "q * 15000 + (t + 14999) mod 15000 = t + 14999"
    unfolding q_def by (rule div_mult_mod_eq)
  have m: "(t + 14999) mod 15000 < 15000" by simp
  have lo: "t \<le> q * 15000" and hi: "q * 15000 < t + 15000" using e m by linarith+
  have "\<lceil>real t / real maxVertices\<rceil> = int q"
  proof (rule ceiling_unique)
    have "real t \<le> real (q * 15000)" using lo by (rule iffD2 [OF of_nat_le_iff])
    then show "real t / real maxVertices \<le> of_int (int q)"
      by (simp add: maxVertices_def divide_le_eq)
    have "real (q * 15000) < real (t + 15000)" using hi by (rule iffD2 [OF of_nat_less_iff])
    then show "of_int (int q) - 1 < real t / real maxVertices"
      by (simp add: maxVertices_def less_divide_eq)
  qed
  then show ?thesis by (simp add: samplingStep_def q_def)
qed

text \<open>The doubles of the source give the same step, third and test of the ceiling.\<close>

lemma samplingStep_double_nat:
  assumes "t < 2 ^ 53"
  shows "samplingStep_double t = num (samplingStep t)"
proof -
  define q where "q = t div 15000"
  define r where "r = t mod 15000"
  have t: "t = q * 15000 + r" and r: "r < 15000" by (simp_all add: q_def r_def)
  define a :: real where "a = real t / 15000"
  have a: "a = real q + real r / 15000" unfolding a_def t by (simp add: field_simps)
  have q53: "q < 2 ^ 53" using assms t by linarith
  show ?thesis
  proof (cases "r = 0")
    case True
    then have aq: "a = real q" using a by simp
    have "dbl a = Fin (real q)" unfolding aq by (rule dbl_nat [OF q53])
    moreover have "samplingStep t = max 1 q"
      using True t by (simp add: samplingStep_nat)
    ultimately show ?thesis
      by (cases "q = 0") (simp_all add: samplingStep_double_def maxVertices_def a_def [symmetric])
  next
    case False
    then have r1: "1 \<le> r" by simp
    have lo: "real q + 1 / 15000 \<le> a" using r1 a by (simp add: field_simps)
    have "r \<le> 14999" using r by simp
    then have "real r \<le> 14999" by (metis of_nat_le_iff of_nat_numeral)
    then have hi: "a \<le> real q + 14999 / 15000" using a by (simp add: field_simps)
    have "real t < 2 ^ 53" using assms by (metis of_nat_less_iff of_nat_numeral of_nat_power)
    then have "a < 2 ^ 53 / 15000" unfolding a_def by (simp add: field_simps)
    also have "\<dots> < 2 ^ 40" by simp
    finally have a40: "a < 2 ^ 40" .
    have a0: "0 \<le> a" unfolding a_def by simp
    have "\<bar>a\<bar> < 2 powr of_int 40" using a40 a0 by (simp add: powr_realpow [symmetric] del: powr_numeral)
    from round_to_near_strict [OF this, of "- 1022" 1024 53]
    obtain b where b: "dbl a = Fin b" "\<bar>b - a\<bar> \<le> 2 powr of_int (40 - int 53) / 2"
      by (auto simp: dbl_def)
    have "(2::real) powr of_int (40 - int 53) / 2 = 1 / 2 ^ 14"
      by (simp add: powr_minus powr_realpow [symmetric] field_simps del: powr_numeral)
    with b(2) have e: "\<bar>b - a\<bar> \<le> 1 / 2 ^ 14" by simp
    have "(1 / 2 ^ 14 :: real) < 1 / 15000" by simp
    with e lo hi have "real q < b" "b < real q + 1" by linarith+
    then have "\<lceil>b\<rceil> = int q + 1" by (intro ceiling_unique) simp_all
    then have c: "Math_ceil (dbl a) = Fin (real (q + 1))" by (simp add: b(1))
    have "(t + 14999) div 15000 = q + 1"
    proof -
      have "t + 14999 = (q + 1) * 15000 + (r - 1)" using t r1 by simp
      moreover have "r - 1 < 15000" using r by simp
      ultimately show ?thesis by (metis div_mult_self3 div_less add.right_neutral zero_neq_numeral)
    qed
    then have "samplingStep t = q + 1" by (simp add: samplingStep_nat)
    then show ?thesis
      using c by (simp add: samplingStep_double_def maxVertices_def a_def [symmetric] del: of_nat_add of_nat_Suc)
  qed
qed


lemma third_double:
  assumes "n < 2 ^ 53"
  shows "\<exists>b. num n / Fin 3 = Fin b \<and> \<lfloor>b\<rfloor> = int (n div 3)"
proof -
  define q where "q = n div 3"
  define r where "r = n mod 3"
  have n: "n = q * 3 + r" and r: "r < 3" by (simp_all add: q_def r_def)
  define a :: real where "a = real n / 3"
  have a: "a = real q + real r / 3" unfolding a_def n by (simp add: field_simps)
  have q53: "q < 2 ^ 53" using assms n by linarith
  show ?thesis
  proof (cases "r = 0")
    case True
    then have aq: "a = real q" using a by simp
    have "dbl a = Fin (real q)" unfolding aq by (rule dbl_nat [OF q53])
    then show ?thesis by (simp add: a_def [symmetric] q_def)
  next
    case False
    then have "r = 1 \<or> r = 2" using r by linarith
    then have lo: "real q + 1 / 3 \<le> a" and hi: "a \<le> real q + 2 / 3" using a by auto
    have "real n < 2 ^ 53" using assms by (metis of_nat_less_iff of_nat_numeral of_nat_power)
    then have "a < 2 ^ 53 / 3" unfolding a_def by (simp add: field_simps)
    also have "\<dots> < 2 ^ 52" by simp
    finally have a52: "a < 2 ^ 52" .
    have a0: "0 \<le> a" unfolding a_def by simp
    have "\<bar>a\<bar> < 2 powr of_int 52"
      using a52 a0 by (simp add: powr_realpow [symmetric] del: powr_numeral)
    from round_to_near_strict [OF this, of "- 1022" 1024 53]
    obtain b where b: "dbl a = Fin b" "\<bar>b - a\<bar> \<le> 2 powr of_int (52 - int 53) / 2"
      by (auto simp: dbl_def)
    have "(2::real) powr of_int (52 - int 53) / 2 = 1 / 4"
      by (simp add: powr_minus)
    with b(2) have e: "\<bar>b - a\<bar> \<le> 1 / 4" by simp
    with lo hi have "real q \<le> b" "b < real q + 1" by linarith+
    then have "\<lfloor>b\<rfloor> = int q" by (intro floor_unique) simp_all
    then show ?thesis using b(1) by (simp add: a_def [symmetric] q_def)
  qed
qed

lemma floor_third_double:
  assumes "n < 2 ^ 53"
  shows "Math_floor (num n / Fin 3) = num (n div 3)"
proof -
  from third_double [OF assms] obtain b where
    b: "num n / Fin 3 = Fin b" "\<lfloor>b\<rfloor> = int (n div 3)" by blast
  show ?thesis unfolding b(1) by (simp add: b(2))
qed

lemma break_test_double:
  assumes "n < 2 ^ 53"
  shows "(num n / Fin 3 \<ge> num maxVertices) = (real n / 3 \<ge> real maxVertices)"
proof -
  from third_double [OF assms] obtain b where
    b: "num n / Fin 3 = Fin b" "\<lfloor>b\<rfloor> = int (n div 3)" by blast
  have "15000 \<le> b \<longleftrightarrow> 15000 \<le> \<lfloor>b\<rfloor>" by (simp add: le_floor_iff)
  also have "\<dots> \<longleftrightarrow> 15000 \<le> n div 3" unfolding b(2) by simp
  also have "\<dots> \<longleftrightarrow> 45000 \<le> n" by (simp add: less_eq_div_iff_mult_less_eq)
  finally have "15000 \<le> b \<longleftrightarrow> 45000 \<le> n" .
  moreover have "real n / 3 \<ge> 15000 \<longleftrightarrow> 45000 \<le> n" by (auto simp: field_simps)
  ultimately show ?thesis unfolding b(1) by (simp add: maxVertices_def)
qed

lemma extract_loop_inv:
  "length vertices mod 3 = 0 \<Longrightarrow> length vertices \<le> 3 * maxVertices \<Longrightarrow>
   length (extract_loop position matrixWorld scl step i vertices) mod 3 = 0
   \<and> length (extract_loop position matrixWorld scl step i vertices) \<le> 3 * maxVertices"
proof (induction position matrixWorld scl step i vertices rule: extract_loop.induct)
  case (1 position matrixWorld scl step i vertices)
  show ?case
  proof (cases "i < length position \<and> \<not> real (length vertices) / 3 \<ge> real maxVertices")
    case False
    then have "extract_loop position matrixWorld scl step i vertices = vertices"
      by (subst extract_loop.simps) auto
    then show ?thesis using "1.prems" by simp
  next
    case True
    obtain x y z where m: "matrixWorld (position ! i) = (x, y, z)" by (cases "matrixWorld (position ! i)")
    from True have lt: "length vertices < 3 * maxVertices" by simp
    from "1.prems"(1) obtain k where k: "length vertices = 3 * k" by (auto simp: mod_eq_0_iff_dvd)
    from lt k have "k < maxVertices" by simp
    then have "3 * (k + 1) \<le> 3 * maxVertices" by simp
    with k have "length vertices + 3 \<le> 3 * maxVertices" by simp
    with "1.prems" have l: "length (vertices @ [x * scl, y * scl, z * scl]) mod 3 = 0"
        "length (vertices @ [x * scl, y * scl, z * scl]) \<le> 3 * maxVertices"
      by (simp_all add: maxVertices_def)
    have "extract_loop position matrixWorld scl step i vertices =
          extract_loop position matrixWorld scl step (i + step) (vertices @ [x * scl, y * scl, z * scl])"
      using True m by (subst extract_loop.simps) simp
    moreover have "length (extract_loop position matrixWorld scl step (i + step) (vertices @ [x * scl, y * scl, z * scl])) mod 3 = 0
   \<and> length (extract_loop position matrixWorld scl step (i + step) (vertices @ [x * scl, y * scl, z * scl])) \<le> 3 * maxVertices"
      using True m l by (intro "1.IH") auto
    ultimately show ?thesis by simp
  qed
qed

lemma extract_pass_inv:
  "length vertices mod 3 = 0 \<Longrightarrow> length vertices \<le> 3 * maxVertices \<Longrightarrow>
   length (extract_pass scl step scene vertices) mod 3 = 0
   \<and> length (extract_pass scl step scene vertices) \<le> 3 * maxVertices"
  by (induction scl step scene vertices rule: extract_pass.induct) (simp_all add: extract_loop_inv)

lemma stride_set:
  fixes i n step :: nat
  assumes "0 < step" "i < n"
  shows "{j. i \<le> j \<and> j < n \<and> (j - i) mod step = 0}
       = insert i {j. i + step \<le> j \<and> j < n \<and> (j - (i + step)) mod step = 0}"
proof -
  have a: "(j - i) mod step = 0 \<longleftrightarrow> i + step \<le> j \<and> (j - (i + step)) mod step = 0"
    if "i < j" for j
  proof (cases "i + step \<le> j")
    case True
    then have "j - i = (j - (i + step)) + step" by simp
    then have "(j - i) mod step = (j - (i + step)) mod step" by (metis mod_add_self2)
    with True show ?thesis by simp
  next
    case False
    with that have "0 < j - i" "j - i < step" by simp_all
    then have "(j - i) mod step \<noteq> 0" by simp
    with False show ?thesis by simp
  qed
  show ?thesis
  proof (rule set_eqI)
    fix j
    show "j \<in> {j. i \<le> j \<and> j < n \<and> (j - i) mod step = 0}
       \<longleftrightarrow> j \<in> insert i {j. i + step \<le> j \<and> j < n \<and> (j - (i + step)) mod step = 0}"
    proof (cases "i < j")
      case True
      with a [OF True] show ?thesis by auto
    next
      case False
      with assms show ?thesis by auto
    qed
  qed
qed

lemma filter_stride:
  fixes i n step :: nat
  assumes "0 < step" "i < n"
  shows "filter (\<lambda>j. (j - i) mod step = 0) [i..<n]
       = i # filter (\<lambda>j. (j - (i + step)) mod step = 0) [i + step..<n]"
proof (rule sorted_distinct_set_unique)
  show "sorted (filter (\<lambda>j. (j - i) mod step = 0) [i..<n])"
    by (rule sorted_wrt_filter) simp
  show "distinct (filter (\<lambda>j. (j - i) mod step = 0) [i..<n])" by simp
  have "sorted (filter (\<lambda>j. (j - (i + step)) mod step = 0) [i + step..<n])"
    by (rule sorted_wrt_filter) simp
  then show "sorted (i # filter (\<lambda>j. (j - (i + step)) mod step = 0) [i + step..<n])"
    by auto
  show "distinct (i # filter (\<lambda>j. (j - (i + step)) mod step = 0) [i + step..<n])"
    using assms(1) by auto
  show "set (filter (\<lambda>j. (j - i) mod step = 0) [i..<n])
      = set (i # filter (\<lambda>j. (j - (i + step)) mod step = 0) [i + step..<n])"
    using stride_set [OF assms] by auto
qed


lemma extract_loop_sampled:
  "0 < step \<Longrightarrow> length vertices mod 3 = 0 \<Longrightarrow> length vertices \<le> 3 * maxVertices \<Longrightarrow>
   extract_loop position matrixWorld scl step i vertices =
     take (3 * maxVertices)
       (vertices @ concat (map (\<lambda>j. flat scl (matrixWorld (position ! j)))
                     (filter (\<lambda>j. (j - i) mod step = 0) [i..<length position])))"
proof (induction position matrixWorld scl step i vertices rule: extract_loop.induct)
  case (1 position matrixWorld scl step i vertices)
  show ?case
  proof (cases "i < length position")
    case False
    then have "extract_loop position matrixWorld scl step i vertices = vertices"
      by (subst extract_loop.simps) simp
    then show ?thesis using False "1.prems" by simp
  next
    case True
    show ?thesis
    proof (cases "real (length vertices) / 3 \<ge> real maxVertices")
      case full: True
      then have "length vertices = 3 * maxVertices" using "1.prems"(3) by simp
      moreover have "extract_loop position matrixWorld scl step i vertices = vertices"
        using True full by (subst extract_loop.simps) simp
      ultimately show ?thesis by simp
    next
      case False
      obtain x y z where m: "matrixWorld (position ! i) = (x, y, z)"
        by (cases "matrixWorld (position ! i)")
      from False have lt: "length vertices < 3 * maxVertices" by simp
      from "1.prems"(2) obtain k where k: "length vertices = 3 * k"
        by (auto simp: mod_eq_0_iff_dvd)
      from lt k have "k < maxVertices" by simp
      then have "3 * (k + 1) \<le> 3 * maxVertices" by simp
      with k have "length vertices + 3 \<le> 3 * maxVertices" by simp
      with "1.prems" have l: "length (vertices @ [x * scl, y * scl, z * scl]) mod 3 = 0"
          "length (vertices @ [x * scl, y * scl, z * scl]) \<le> 3 * maxVertices"
        by simp_all
      have "extract_loop position matrixWorld scl step i vertices =
            extract_loop position matrixWorld scl step (i + step)
              (vertices @ [x * scl, y * scl, z * scl])"
        using True False m by (subst extract_loop.simps) simp
      also have "\<dots> = take (3 * maxVertices)
           ((vertices @ [x * scl, y * scl, z * scl])
            @ concat (map (\<lambda>j. flat scl (matrixWorld (position ! j)))
                (filter (\<lambda>j. (j - (i + step)) mod step = 0) [i + step..<length position])))"
        using True False m l "1.prems"(1) by (intro "1.IH") auto
      also have "\<dots> = take (3 * maxVertices)
           (vertices @ concat (map (\<lambda>j. flat scl (matrixWorld (position ! j)))
                (filter (\<lambda>j. (j - i) mod step = 0) [i..<length position])))"
        unfolding filter_stride [OF "1.prems"(1) True] by (simp add: flat_def m)
      finally show ?thesis .
    qed
  qed
qed

lemma take_take_append:
  "take n (take n xs @ ys) = take n (xs @ ys)"
  by (cases "n \<le> length xs") simp_all

lemma extract_pass_sampled:
  "0 < step \<Longrightarrow> length vertices mod 3 = 0 \<Longrightarrow> length vertices \<le> 3 * maxVertices \<Longrightarrow>
   extract_pass scl step scene vertices =
     take (3 * maxVertices) (vertices @ sampled scl step scene)"
proof (induction scl step scene vertices rule: extract_pass.induct)
  case (2 scl step position matrixWorld scene vertices)
  let ?v = "extract_loop position matrixWorld scl step 0 vertices"
  let ?a = "concat (map (\<lambda>v. flat scl (matrixWorld v)) (every_nth step position))"
  have e: "?v = take (3 * maxVertices) (vertices @ ?a)"
    using extract_loop_sampled [OF "2.prems", of position matrixWorld scl 0]
    by (simp add: every_nth_def comp_def)
  have inv: "length ?v mod 3 = 0 \<and> length ?v \<le> 3 * maxVertices"
    using "2.prems"(2,3) by (rule extract_loop_inv)
  have "extract_pass scl step (Mesh (Some position) matrixWorld # scene) vertices
      = take (3 * maxVertices) (?v @ sampled scl step scene)"
    using "2.IH" [OF "2.prems"(1)] inv by simp
  also have "\<dots> = take (3 * maxVertices) ((vertices @ ?a) @ sampled scl step scene)"
    unfolding e by (rule take_take_append)
  also have "(vertices @ ?a) @ sampled scl step scene
      = vertices @ sampled scl step (Mesh (Some position) matrixWorld # scene)"
    by (simp add: sampled_def parts_def)
  finally show ?case .
qed (simp_all add: sampled_def parts_def)

lemma totalVertexCount_parts:
  "totalVertexCount scene = sum_list (map (\<lambda>(position, matrixWorld). length position) (parts scene))"
  by (induction scene rule: totalVertexCount.induct) (simp_all add: parts_def)

subsection \<open>Resampling\<close>

lemma store3_frounded:
  assumes "\<forall>v\<in>set a. fround v = v"
  shows "\<forall>v\<in>set (store3 a i x y z). fround v = v"
proof
  fix v
  assume "v \<in> set (store3 a i x y z)"
  then obtain j where j: "j < length a" "v = store3 a i x y z ! j"
    by (auto simp: in_set_conv_nth)
  then show "fround v = v" using assms by (auto simp: nth_store3)
qed

lemma length_downsample_body [simp]:
  "length (downsample_body ov step i nv) = length nv"
  by (simp add: downsample_body_def Let_def)

lemma length_fold_downsample [simp]:
  "length (fold (downsample_body ov step) is nv) = length nv"
  by (induction "is" arbitrary: nv) simp_all

lemma fold_downsample_frounded:
  "\<forall>v\<in>set nv. fround v = v \<Longrightarrow> \<forall>v\<in>set (fold (downsample_body ov step) is nv). fround v = v"
proof (induction "is" arbitrary: nv)
  case Nil
  then show ?case by simp
next
  case (Cons i "is")
  have "\<forall>v\<in>set (downsample_body ov step i nv). fround v = v"
    using Cons.prems store3_frounded [OF Cons.prems] by (simp add: downsample_body_def Let_def)
  from Cons.IH [OF this] show ?case by simp
qed

lemma upsample_body_frame [simp]:
  "length (fst (upsample_body rand ov oc i st)) = length (fst st)"
  "snd (upsample_body rand ov oc i st) = snd st + 1"
  by (simp_all add: upsample_body_def Let_def split: prod.splits)

lemma fold_upsample_frame [simp]:
  "length (fst (fold (upsample_body rand ov oc) is st)) = length (fst st)"
  "snd (fold (upsample_body rand ov oc) is st) = snd st + length is"
  by (induction "is" arbitrary: st) simp_all

lemma fold_upsample_frounded:
  "\<forall>v\<in>set (fst st). fround v = v \<Longrightarrow>
   \<forall>v\<in>set (fst (fold (upsample_body rand ov oc) is st)). fround v = v"
proof (induction "is" arbitrary: st)
  case Nil
  then show ?case by simp
next
  case (Cons i "is")
  obtain nv p where st: "st = (nv, p)" by (cases st)
  have "\<forall>v\<in>set (fst (upsample_body rand ov oc i st)). fround v = v"
    using Cons.prems store3_frounded [of nv] by (simp add: upsample_body_def Let_def st)
  from Cons.IH [OF this] show ?case by simp
qed

lemma resampleVertices_result:
  "\<exists>out. resampleVertices rand ov t e =
     (Inr out,
      (if 1000 < t
       then emit WarnLevel ''ModelGenerator: Reduced particle count for performance'' [t, 1000]
       else (\<lambda>x. x))
        (emit LogLevel ''Resampling particles'' [length ov div 3, min t 1000] e
          \<lparr>cursor := cursor e + (if min t 1000 \<le> length ov div 3 then 0 else min t 1000)\<rparr>))
     \<and> length out = 3 * min t 1000 \<and> (\<forall>v\<in>set out. fround v = v)"
proof -
  have small: "\<not> 50000 < min t 1000 * 3" by (simp add: min_def)
  have warn: "min t 1000 < t \<longleftrightarrow> 1000 < t" by (simp add: min_def)
  have z: "\<forall>v\<in>set (replicate n (Fin 0)). fround v = v" for n by simp
  show ?thesis
  proof (cases "min t 1000 \<le> length ov div 3")
    case True
    then show ?thesis
      using fold_downsample_frounded [OF z]
      by (simp add: resampleVertices_def Let_def emit_def small warn)
  next
    case False
    have "\<forall>v\<in>set (fst (fold (upsample_body rand ov oc) is (replicate n (Fin 0), p))). fround v = v"
      for oc "is" n p
      by (rule fold_upsample_frounded) simp
    with False show ?thesis
      by (simp add: resampleVertices_def Let_def emit_def split_beta small warn)
  qed
qed

lemma resample_capped:
  "fst (resampleVertices rand ov t e) = fst (resampleVertices rand ov (min t 1000) e)"
proof -
  have small: "\<not> 50000 < min t 1000 * 3" by (simp add: min_def)
  have m: "min (min t 1000) 1000 = min t 1000" by simp
  show ?thesis
    unfolding resampleVertices_def Let_def m by (simp add: small emit_def split_beta)
qed

lemma rd_at_num [simp]: "rd_at a (num m) = rd a m"
  by simp

lemma downsample_body_copy:
  assumes "i < k" "length ov = k * 3" "length nv = k * 3" "k \<le> 1000"
  shows "downsample_body ov (Fin 1) i nv =
         store3 nv (i * 3) (ov ! (i * 3)) (ov ! (i * 3 + 1)) (ov ! (i * 3 + 2))"
proof -
  have n: "dbl (real m) = Fin (real m)" if "m \<le> 3000" for m
  proof (rule dbl_nat)
    have "(3000::nat) < 2 ^ 53" by simp
    with that show "m < 2 ^ 53" by linarith
  qed
  have i3: "i * 3 + 2 \<le> 3000" using assms(1,4) by simp
  have "num i * Fin 1 = num i" using n [of i] i3 by simp
  moreover have "num i * Fin 3 = num (i * 3)" using n [of "i * 3"] i3 by simp
  ultimately have s: "Math_floor (num i * Fin 1) * Fin 3 = num (i * 3)" by simp
  have p: "num (i * 3) + Fin 1 = num (i * 3 + 1)" "num (i * 3) + Fin 2 = num (i * 3 + 2)"
    using n [of "i * 3 + 1"] n [of "i * 3 + 2"] i3 by (simp_all add: add.commute)
  have b: "i * 3 + 2 < k * 3" using assms(1) by simp
  then have b': "i * 3 < k * 3" "i * 3 + 1 < k * 3" by simp_all
  have c: "num (i * 3 + 2) < num (k * 3)" using b by (simp del: of_nat_add of_nat_mult)
  show ?thesis
    unfolding downsample_body_def Let_def s p rd_at_num rd_def assms(2,3)
    using b b' c by (simp del: of_nat_add of_nat_mult)
qed

lemma fold_downsample_copy:
  assumes "length ov = k * 3" "k \<le> 1000"
  shows "length nv = k * 3 \<Longrightarrow> \<forall>i\<in>set is. i < k \<Longrightarrow>
         fold (downsample_body ov (Fin 1)) is nv =
         fold (\<lambda>i a. store3 a (i * 3) (ov ! (i * 3)) (ov ! (i * 3 + 1)) (ov ! (i * 3 + 2))) is nv"
  by (induction "is" arbitrary: nv) (simp_all add: downsample_body_copy [OF _ assms(1) _ assms(2)])

lemma fold_store3_all:
  assumes "length a = n * 3" "length b = n * 3" "\<forall>v\<in>set b. fround v = v"
  shows "fold (\<lambda>i a. store3 a (i * 3) (b ! (i * 3)) (b ! (i * 3 + 1)) (b ! (i * 3 + 2))) [0..<n] a = b"
proof (rule nth_equalityI)
  show "length (fold (\<lambda>i a. store3 a (i * 3) (b ! (i * 3)) (b ! (i * 3 + 1)) (b ! (i * 3 + 2)))
          [0..<n] a) = length b"
    using assms by simp
next
  fix j
  assume "j < length (fold (\<lambda>i a. store3 a (i * 3) (b ! (i * 3)) (b ! (i * 3 + 1)) (b ! (i * 3 + 2)))
          [0..<n] a)"
  then have j: "j < n * 3" using assms by simp
  then have fx: "fround (b ! j) = b ! j" using assms(2,3) by simp
  define i where "i = j div 3"
  have i: "i < n" using j by (simp add: i_def less_mult_imp_div_less)
  have l: "n * 3 \<le> length a" using assms by simp
  have "j = i * 3 + j mod 3" by (simp add: i_def)
  moreover have "j mod 3 < 3" by simp
  ultimately consider "j = i * 3" | "j = i * 3 + 1" | "j = i * 3 + 2" by linarith
  then show "fold (\<lambda>i a. store3 a (i * 3) (b ! (i * 3)) (b ! (i * 3 + 1)) (b ! (i * 3 + 2)))
          [0..<n] a ! j = b ! j"
    using fx by cases (simp_all only: fold_store3_nth [OF i l])
qed

lemma resample_same_count:
  assumes "length out = 3 * k" "k \<le> 1000" "\<forall>v\<in>set out. fround v = v"
  shows "resampleVertices rand out k e =
         (Inr out, emit LogLevel ''Resampling particles'' [k, k] e)"
proof -
  have oc: "length out div 3 = k" using assms(1) by simp
  have m: "min k 1000 = k" using assms(2) by simp
  have small: "\<not> 50000 < k * 3" using assms(2) by simp
  have l: "length out = k * 3" using assms(1) by simp
  have "fold (downsample_body out (num k / num k)) [0..<k] (replicate (k * 3) (Fin 0)) = out"
  proof (cases "k = 0")
    case True
    then show ?thesis using assms(1) by simp
  next
    case False
    then have "num k / num k = Fin 1" by simp
    then show ?thesis
      using fold_downsample_copy [OF l assms(2), of "replicate (k * 3) (Fin 0)" "[0..<k]"]
        fold_store3_all [of "replicate (k * 3) (Fin 0)" k out] l assms(3)
      by simp
  qed
  then show ?thesis
    by (simp add: resampleVertices_def Let_def oc m small emit_def)
qed

subsection \<open>The buffer returned\<close>

lemma extractVertices_sampled:
  "extractVertices rand scene opts e =
     (let v = take (3 * maxVertices)
                (sampled (or_default (scale opts) (Fin 1))
                   (samplingStep (totalVertexCount scene)) scene);
          e3 = e\<lparr>console := console e @
                 [(LogLevel, ''Total vertices in model'', [totalVertexCount scene]),
                  (LogLevel, ''Using sampling step'', [samplingStep (totalVertexCount scene)]),
                  (LogLevel, ''Extracted particles from model'', [length v div 3])]\<rparr>;
          targetParticleCount =
            (case particleCount opts of
               None \<Rightarrow> length v div 3
             | Some pc \<Rightarrow> if pc = 0 then length v div 3 else min pc maxVertices)
      in if targetParticleCount \<noteq> length v div 3
         then resampleVertices rand (map fround v) targetParticleCount e3
         else (Inr (map fround v), e3))"
proof -
  let ?scl = "or_default (scale opts) (Fin 1)"
  let ?step = "samplingStep (totalVertexCount scene)"
  let ?v = "extract_pass ?scl ?step scene []"
  have "0 < ?step" by (simp add: samplingStep_def)
  then have v: "?v = take (3 * maxVertices) (sampled ?scl ?step scene)"
    using extract_pass_sampled [of ?step "[]" ?scl scene] by simp
  have inv: "length ?v mod 3 = 0" "length ?v \<le> 3 * maxVertices"
    using extract_pass_inv [of "[]"] by simp_all
  then have valid: "length ?v div 3 * 3 = length ?v" by (simp add: mod_eq_0_iff_dvd)
  have small: "\<not> 60000 < length ?v" using inv(2) by (simp add: maxVertices_def)
  have "extractVertices rand scene opts e =
     (let e3 = e\<lparr>console := console e @
                 [(LogLevel, ''Total vertices in model'', [totalVertexCount scene]),
                  (LogLevel, ''Using sampling step'', [?step]),
                  (LogLevel, ''Extracted particles from model'', [length ?v div 3])]\<rparr>;
          targetParticleCount =
            (case particleCount opts of
               None \<Rightarrow> length ?v div 3
             | Some pc \<Rightarrow> if pc = 0 then length ?v div 3 else min pc maxVertices)
      in if targetParticleCount \<noteq> length ?v div 3
         then resampleVertices rand (map fround ?v) targetParticleCount e3
         else (Inr (map fround ?v), e3))"
    unfolding extractVertices_def Let_def valid using small by (simp add: emit_def)
  then show ?thesis unfolding v Let_def .
qed

lemma extractVertices_bound:
  assumes "fst (extractVertices rand scene opts e) = Inr out"
  shows "length out \<le> 3 * maxVertices"
proof -
  let ?v = "take (3 * maxVertices)
                (sampled (or_default (scale opts) (Fin 1))
                   (samplingStep (totalVertexCount scene)) scene)"
  let ?t = "case particleCount opts of None \<Rightarrow> length ?v div 3
                 | Some pc \<Rightarrow> if pc = 0 then length ?v div 3 else min pc maxVertices"
  show ?thesis
  proof (cases "?t = length ?v div 3")
    case True
    have "fst (extractVertices rand scene opts e) = Inr (map fround ?v)"
      unfolding extractVertices_sampled Let_def using True by simp
    with assms have "out = map fround ?v" by simp
    then show ?thesis by simp
  next
    case False
    have "\<exists>e'. fst (extractVertices rand scene opts e)
        = fst (resampleVertices rand (map fround ?v) ?t e')"
      unfolding extractVertices_sampled Let_def using False
      by simp (rule exI, rule refl)
    then obtain e' where
      r: "fst (extractVertices rand scene opts e)
        = fst (resampleVertices rand (map fround ?v) ?t e')" ..
    from resampleVertices_result [of rand "map fround ?v" ?t e'] obtain out' where
      "fst (resampleVertices rand (map fround ?v) ?t e') = Inr out'"
      "length out' = 3 * min ?t 1000"
      by auto
    with r assms have "length out = 3 * min ?t 1000" by simp
    then show ?thesis by (simp add: maxVertices_def min_def)
  qed
qed

lemma count_stride:
  assumes "0 < s"
  shows "length (filter (\<lambda>j. j mod s = 0) [0..<n]) = (n + s - 1) div s"
proof (induction n)
  case 0
  then show ?case using assms by simp
next
  case (Suc n)
  have "(Suc n + s - 1) div s = (n + s - 1) div s + (if n mod s = 0 then 1 else 0)"
  proof (cases "n mod s = 0")
    case True
    then obtain q where q: "n = s * q" by (auto simp: mod_eq_0_iff_dvd)
    have "(n + s - 1) div s = (s - 1 + q * s) div s" using assms by (simp add: q ac_simps)
    also have "\<dots> = q + (s - 1) div s" using assms by (intro div_mult_self1) simp
    also have "(s - 1) div s = 0" using assms by (intro div_less) simp
    finally have "(n + s - 1) div s = q" by simp
    moreover have "(Suc n + s - 1) div s = Suc q" using assms by (simp add: q)
    ultimately show ?thesis using True by simp
  next
    case False
    then obtain m where m: "n = Suc m" by (cases n) auto
    have c: "n div s = m div s" using False by (simp add: m div_Suc)
    have "n + s - 1 = m + s" by (simp add: m)
    then have a: "(n + s - 1) div s = m div s + 1" using assms by simp
    have "Suc n + s - 1 = n + s" by simp
    then have "(Suc n + s - 1) div s = n div s + 1" using assms by simp
    with a c show ?thesis using False by simp
  qed
  then show ?case using Suc by simp
qed

lemma every_nth_replicate:
  "every_nth s (replicate n v) = replicate (length (filter (\<lambda>j. j mod s = 0) [0..<n])) v"
proof -
  have "map (nth (replicate n v)) (filter (\<lambda>j. j mod s = 0) [0..<n])
      = map (\<lambda>j. v) (filter (\<lambda>j. j mod s = 0) [0..<n])"
    by (rule map_cong) simp_all
  then show ?thesis by (simp add: every_nth_def map_replicate_const)
qed

lemma length_concat_replicate: "length (concat (replicate n xs)) = n * length xs"
  by (induction n) simp_all

lemma map_concat_replicate: "map f (concat (replicate n xs)) = concat (replicate n (map f xs))"
  by (induction n) simp_all

lemma sampled_single:
  assumes "0 < s"
  shows "sampled scl s [Mesh (Some (replicate n v)) matrixWorld]
       = concat (replicate ((n + s - 1) div s) (flat scl (matrixWorld v)))"
  by (simp add: sampled_def parts_def every_nth_replicate count_stride [OF assms])

subsection \<open>Stride, ceiling and cap\<close>

text \<open>
  C4. The first pass of \<open>extractVertices\<close> counts the vertices of all parts of the scene.
  The sampling step is \<open>max(1, ceil(total / 15000))\<close>, which in whole numbers is
  \<open>max 1 ((total + 14999) div 15000)\<close>, is what the doubles of the source give for a total
  that is a safe integer, and is \<open>4\<close> for \<open>50000\<close> vertices. The second pass
  takes, with the step of that total, every \<open>step\<close>-th vertex of every part from its
  first vertex on, under the world matrix of the part and scaled, and stops at \<open>15000\<close>
  vertices. \<open>extractVertices\<close> logs the total, the step and the extracted count, and
  returns these vertices as singles, or what \<open>resampleVertices\<close> makes of them when
  another particle count is asked for; every buffer it returns holds at most \<open>15000\<close>
  particles.
\<close>

theorem extraction_stride_and_ceiling:
  "totalVertexCount scene
     = sum_list (map (\<lambda>(position, matrixWorld). length position) (parts scene))
   \<and> samplingStep t = max 1 (nat \<lceil>real t / 15000\<rceil>)
   \<and> samplingStep t = max 1 ((t + 14999) div 15000)
   \<and> (t < 2 ^ 53 \<longrightarrow> samplingStep_double t = num (samplingStep t))
   \<and> samplingStep 50000 = 4
   \<and> extract_pass scl (samplingStep (totalVertexCount scene)) scene []
       = take 45000 (sampled scl (samplingStep (totalVertexCount scene)) scene)
   \<and> extractVertices rand scene opts e =
       (let v = take 45000
                  (sampled (or_default (scale opts) (Fin 1))
                     (samplingStep (totalVertexCount scene)) scene);
            e3 = e\<lparr>console := console e @
                   [(LogLevel, ''Total vertices in model'', [totalVertexCount scene]),
                    (LogLevel, ''Using sampling step'', [samplingStep (totalVertexCount scene)]),
                    (LogLevel, ''Extracted particles from model'', [length v div 3])]\<rparr>;
            targetParticleCount =
              (case particleCount opts of
                 None \<Rightarrow> length v div 3
               | Some pc \<Rightarrow> if pc = 0 then length v div 3 else min pc 15000)
        in if targetParticleCount \<noteq> length v div 3
           then resampleVertices rand (map fround v) targetParticleCount e3
           else (Inr (map fround v), e3))
   \<and> (\<forall>out. fst (extractVertices rand scene opts e) = Inr out \<longrightarrow> length out div 3 \<le> 15000)"
proof -
  have a: "totalVertexCount scene
     = sum_list (map (\<lambda>(position, matrixWorld). length position) (parts scene))"
    by (rule totalVertexCount_parts)
  have b: "samplingStep t = max 1 (nat \<lceil>real t / 15000\<rceil>)"
    by (simp add: samplingStep_def maxVertices_def)
  have c: "samplingStep 50000 = 4" by (simp add: samplingStep_nat)
  have "0 < samplingStep (totalVertexCount scene)" by (simp add: samplingStep_def)
  then have d: "extract_pass scl (samplingStep (totalVertexCount scene)) scene []
       = take 45000 (sampled scl (samplingStep (totalVertexCount scene)) scene)"
    using extract_pass_sampled [of "samplingStep (totalVertexCount scene)" "[]" scl scene]
    by (simp add: maxVertices_def)
  have f: "length out div 3 \<le> 15000" if "fst (extractVertices rand scene opts e) = Inr out" for out
    using extractVertices_bound [OF that] by (simp add: maxVertices_def)
  have m: "3 * maxVertices = 45000" by (simp add: maxVertices_def)
  have g: "extractVertices rand scene opts e =
       (let v = take 45000
                  (sampled (or_default (scale opts) (Fin 1))
                     (samplingStep (totalVertexCount scene)) scene);
            e3 = e\<lparr>console := console e @
                   [(LogLevel, ''Total vertices in model'', [totalVertexCount scene]),
                    (LogLevel, ''Using sampling step'', [samplingStep (totalVertexCount scene)]),
                    (LogLevel, ''Extracted particles from model'', [length v div 3])]\<rparr>;
            targetParticleCount =
              (case particleCount opts of
                 None \<Rightarrow> length v div 3
               | Some pc \<Rightarrow> if pc = 0 then length v div 3 else min pc 15000)
        in if targetParticleCount \<noteq> length v div 3
           then resampleVertices rand (map fround v) targetParticleCount e3
           else (Inr (map fround v), e3))"
    unfolding extractVertices_sampled [of rand scene opts e] m
    unfolding maxVertices_def by (rule refl)
  show ?thesis
    apply (intro conjI allI impI)
           apply (rule a)
          apply (rule b)
         apply (rule samplingStep_nat)
        apply (erule samplingStep_double_nat)
       apply (rule c)
      apply (rule d)
     apply (rule g)
    apply (erule f)
    done
qed

theorem extraction_stride_and_ceiling_witness:
  "totalVertexCount [Mesh (Some (replicate 50000 (Fin 1, Fin 2, Fin 3))) id] = 50000
   \<and> samplingStep 50000 = 4
   \<and> samplingStep_double 50000 = Fin 4
   \<and> extractVertices centre_rand [Mesh (Some (replicate 50000 (Fin 1, Fin 2, Fin 3))) id]
         \<lparr>scale = Some (Fin 2), particleCount = None\<rparr> \<lparr>cursor = 0, console = []\<rparr>
     = (Inr (concat (replicate 12500 [Fin 2, Fin 4, Fin 6])),
        \<lparr>cursor = 0,
         console = [(LogLevel, ''Total vertices in model'', [50000]),
                    (LogLevel, ''Using sampling step'', [4]),
                    (LogLevel, ''Extracted particles from model'', [12500])]\<rparr>)
   \<and> length (concat (replicate 12500 [Fin 2, Fin 4, Fin 6])) div 3 \<le> 15000"
proof -
  let ?scene = "[Mesh (Some (replicate 50000 (Fin 1, Fin 2, Fin 3))) id]"
  let ?opts = "\<lparr>scale = Some (Fin 2), particleCount = None\<rparr>"
  let ?e = "\<lparr>cursor = 0, console = []\<rparr>"
  let ?out = "concat (replicate 12500 [Fin 2, Fin 4, Fin 6])"
  have t: "totalVertexCount ?scene = 50000" by simp
  have s: "samplingStep 50000 = 4" by (simp add: samplingStep_nat)
  have fl: "flat (Fin 2) (Fin 1, Fin 2, Fin 3) = [Fin 2, Fin 4, Fin 6]"
    by (simp add: flat_def dbl_numeral)
  have "sampled (Fin 2) 4 ?scene = concat (replicate ((50000 + 4 - 1) div 4) [Fin 2, Fin 4, Fin 6])"
    using sampled_single [of 4 "Fin 2" 50000 "(Fin 1, Fin 2, Fin 3)" id] by (simp only: fl id_apply)
  then have sm: "sampled (Fin 2) 4 ?scene = ?out" by simp
  have l: "length ?out = 37500" by (simp add: length_concat_replicate)
  have tk: "take 45000 ?out = ?out" by (simp add: l)
  have fr: "map fround ?out = ?out" by (simp add: map_concat_replicate f32_numeral)
  have sc: "or_default (scale ?opts) (Fin 1) = Fin 2" by simp
  note th = extraction_stride_and_ceiling [of ?scene 50000 "Fin 2" centre_rand ?opts ?e]
  have ev: "extractVertices centre_rand ?scene ?opts ?e
     = (Inr ?out,
        \<lparr>cursor = 0,
         console = [(LogLevel, ''Total vertices in model'', [50000]),
                    (LogLevel, ''Using sampling step'', [4]),
                    (LogLevel, ''Extracted particles from model'', [12500])]\<rparr>)"
    using th unfolding t s sc sm tk Let_def fr l by simp
  then have "fst (extractVertices centre_rand ?scene ?opts ?e) = Inr ?out" by simp
  with th have "length ?out div 3 \<le> 15000" by blast
  moreover have "samplingStep_double 50000 = Fin 4" using th s by simp
  ultimately show ?thesis using t s ev by simp
qed

text \<open>
  C5. For every buffer and every \<open>k\<close> within the cap of \<open>1000\<close>, resampling to \<open>k\<close>
  gives a buffer of length \<open>3 * k\<close>, and resampling that buffer to \<open>k\<close> again returns
  the same buffer and draws no random number (no jitter): the second call takes the
  sampling branch with the step \<open>1\<close>, and what it copies are singles already. This holds
  on both branches of the first call, so in particular when \<open>k\<close> is at most the particle
  count of the source.
\<close>

theorem resample_idempotent:
  assumes "k \<le> 1000"
  shows "\<exists>out. fst (resampleVertices rand buf k e) = Inr out \<and> length out = 3 * k
           \<and> fst (resampleVertices rand' out k e') = Inr out
           \<and> cursor (snd (resampleVertices rand' out k e')) = cursor e'"
proof -
  from resampleVertices_result [of rand buf k e] obtain out where
    o: "fst (resampleVertices rand buf k e) = Inr out" "length out = 3 * min k 1000"
      "\<forall>v\<in>set out. fround v = v" by auto
  from o(2) assms have l: "length out = 3 * k" by simp
  show ?thesis using o(1) l resample_same_count [OF l assms o(3), of rand' e']
    by (simp add: emit_def)
qed

theorem resample_idempotent_witness:
  "fst (resampleVertices centre_rand [Fin 1, Fin 2, Fin 3, Fin 4, Fin 5, Fin 6] 1
         \<lparr>cursor = 0, console = []\<rparr>) = Inr [Fin 1, Fin 2, Fin 3]
   \<and> fst (resampleVertices centre_rand [Fin 1, Fin 2, Fin 3] 1 \<lparr>cursor = 7, console = []\<rparr>)
       = Inr [Fin 1, Fin 2, Fin 3]
   \<and> cursor (snd (resampleVertices centre_rand [Fin 1, Fin 2, Fin 3] 1
                    \<lparr>cursor = 7, console = []\<rparr>)) = 7"
proof -
  have f: "fold (downsample_body [Fin 1, Fin 2, Fin 3, Fin 4, Fin 5, Fin 6] (Fin 2)) [0..<1]
             [Fin 0, Fin 0, Fin 0] = [Fin 1, Fin 2, Fin 3]"
    by (simp add: downsample_body_def store3_def rd_def Let_def dbl_numeral f32_numeral)
  have r: "replicate (1 * 3) (Fin 0) = [Fin 0, Fin 0, Fin 0]" by (simp add: numeral_3_eq_3)
  have s: "num 2 / num 1 = Fin 2" by (simp add: dbl_numeral)
  have l: "length [Fin 1, Fin 2, Fin 3, Fin 4, Fin 5, Fin 6] div 3 = 2" by simp
  have m: "min 1 1000 = (1::nat)" by simp
  have ev: "fst (resampleVertices centre_rand [Fin 1, Fin 2, Fin 3, Fin 4, Fin 5, Fin 6] 1
         \<lparr>cursor = 0, console = []\<rparr>) = Inr [Fin 1, Fin 2, Fin 3]"
    unfolding resampleVertices_def Let_def l m r s f by (simp add: emit_def)
  have "(1::nat) \<le> 1000" by simp
  from resample_idempotent [OF this, of centre_rand "[Fin 1, Fin 2, Fin 3, Fin 4, Fin 5, Fin 6]"
      "\<lparr>cursor = 0, console = []\<rparr>" centre_rand "\<lparr>cursor = 7, console = []\<rparr>"] ev
  show ?thesis by auto
qed

text \<open>
  C6 (as amended). For every target count \<open>resampleVertices\<close> returns exactly
  \<open>min(targetCount, 1000)\<close> particles, and the cap \<open>1000\<close> is below the extraction ceiling
  \<open>15000\<close>. A target above the cap is reported on the console only, at the warning
  level, with the requested and the reduced count: the value returned to the caller is
  the buffer alone, the same buffer a request of the capped count returns.
\<close>

theorem resample_count_and_warning:
  "\<exists>out e'. resampleVertices rand ov t e = (Inr out, e')
     \<and> length out = 3 * min t 1000
     \<and> 1000 < maxVertices
     \<and> (if 1000 < t
         then console e' = console e @
                [(LogLevel, ''Resampling particles'', [length ov div 3, 1000]),
                 (WarnLevel, ''ModelGenerator: Reduced particle count for performance'', [t, 1000])]
         else console e' = console e @ [(LogLevel, ''Resampling particles'', [length ov div 3, t])])
     \<and> fst (resampleVertices rand ov (min t 1000) e) = Inr out"
proof -
  from resampleVertices_result [of rand ov t e] obtain out e' where
    r: "resampleVertices rand ov t e = (Inr out, e')" "length out = 3 * min t 1000"
      "e' = (if 1000 < t
       then emit WarnLevel ''ModelGenerator: Reduced particle count for performance'' [t, 1000]
       else (\<lambda>x. x))
        (emit LogLevel ''Resampling particles'' [length ov div 3, min t 1000] e
          \<lparr>cursor := cursor e + (if min t 1000 \<le> length ov div 3 then 0 else min t 1000)\<rparr>)"
    by blast
  have "if 1000 < t
         then console e' = console e @
                [(LogLevel, ''Resampling particles'', [length ov div 3, 1000]),
                 (WarnLevel, ''ModelGenerator: Reduced particle count for performance'', [t, 1000])]
         else console e' = console e @ [(LogLevel, ''Resampling particles'', [length ov div 3, t])]"
    unfolding r(3) by (simp add: emit_def min_def)
  moreover have "fst (resampleVertices rand ov (min t 1000) e) = Inr out"
    using resample_capped [of rand ov t e] r(1) by simp
  ultimately show ?thesis using r(1,2) by (simp add: maxVertices_def)
qed

text \<open>
  C6 as stated fails: a request of \<open>1500\<close> particles and a request of \<open>1000\<close> return the
  same value, so the caller is given no signal of the reduction.
\<close>

theorem resample_reduction_counterexample:
  "fst (resampleVertices centre_rand [Fin 1, Fin 2, Fin 3] 1500 \<lparr>cursor = 0, console = []\<rparr>)
   = fst (resampleVertices centre_rand [Fin 1, Fin 2, Fin 3] 1000 \<lparr>cursor = 0, console = []\<rparr>)"
  using resample_capped [of centre_rand "[Fin 1, Fin 2, Fin 3]" 1500 "\<lparr>cursor = 0, console = []\<rparr>"]
  by simp

section \<open>Properties of the connections and of the pointer interaction\<close>

subsection \<open>The connection graph\<close>

lemma connect_body_segment:
  "connect_body ps maxD (rd ps (i * 3)) (rd ps (i * 3 + 1)) (rd ps (i * 3 + 2)) j segs =
     (if js_distance ps i j \<le> maxD then segs @ segment ps (i, j) else segs)"
  by (simp add: connect_body_def js_distance_def Let_def)

lemma fold_connect_body:
  "fold (connect_body ps maxD (rd ps (i * 3)) (rd ps (i * 3 + 1)) (rd ps (i * 3 + 2))) js segs =
     segs @ concat (map (segment ps)
                      (filter (\<lambda>(i, j). js_distance ps i j \<le> maxD) (map (Pair i) js)))"
proof (induction js arbitrary: segs)
  case Nil
  then show ?case by simp
next
  case (Cons a js)
  let ?F = "connect_body ps maxD (rd ps (i * 3)) (rd ps (i * 3 + 1)) (rd ps (i * 3 + 2))"
  have "fold ?F (a # js) segs = fold ?F js (?F a segs)" by simp
  also have "\<dots> = ?F a segs @ concat (map (segment ps)
                      (filter (\<lambda>(i, j). js_distance ps i j \<le> maxD) (map (Pair i) js)))"
    by (rule Cons.IH)
  also have "?F a segs = (if js_distance ps i a \<le> maxD then segs @ segment ps (i, a) else segs)"
    by (rule connect_body_segment)
  finally show ?case by (simp del: segment.simps)
qed

lemma fold_append_concat:
  "(\<And>i segs. i \<in> set is \<Longrightarrow> f i segs = segs @ g i) \<Longrightarrow>
   fold f is segs = segs @ concat (map g is)"
  by (induction "is" arbitrary: segs) simp_all

lemma concat_concat_map: "concat (concat xss) = concat (map concat xss)"
  by (induction xss) simp_all

lemma sum_list_map_Suc: "sum_list (map (\<lambda>i. Suc (f i)) xs) = sum_list (map f xs) + length xs"
  by (induction xs) simp_all

lemma connect_loop_near_pairs:
  "connect_loop ps n maxD = concat (map (segment ps) (near_pairs ps n maxD))"
proof -
  let ?g = "\<lambda>i. concat (map (segment ps)
                      (filter (\<lambda>(i, j). js_distance ps i j \<le> maxD) (map (Pair i) [i + 1..<n])))"
  have "connect_loop ps n maxD = [] @ concat (map ?g [0..<n])"
    unfolding connect_loop_def
  proof (rule fold_append_concat)
    fix i segs assume "i \<in> set [0..<n]"
    show "(let x1 = rd ps (i * 3); y1 = rd ps (i * 3 + 1); z1 = rd ps (i * 3 + 2)
           in fold (connect_body ps maxD x1 y1 z1) [i + 1..<n] segs) = segs @ ?g i"
      unfolding Let_def by (rule fold_connect_body)
  qed
  also have "\<dots> = concat (map (segment ps) (near_pairs ps n maxD))"
    by (simp add: near_pairs_def pairs_def filter_concat map_concat concat_concat_map comp_def)
  finally show ?thesis .
qed

lemma sum_list_gaps: "2 * sum_list (map (\<lambda>i. n - Suc i) [0..<n]) = n * (n - 1)"
proof (induction n)
  case 0
  then show ?case by simp
next
  case (Suc n)
  have "sum_list (map (\<lambda>i. Suc n - Suc i) [0..<Suc n]) = sum_list (map (\<lambda>i. n - i) [0..<n])"
    by simp
  also have "map (\<lambda>i. n - i) [0..<n] = map (\<lambda>i. Suc (n - Suc i)) [0..<n]"
    by (rule map_cong) auto
  also have "sum_list (map (\<lambda>i. Suc (n - Suc i)) [0..<n])
             = sum_list (map (\<lambda>i. n - Suc i) [0..<n]) + n"
    by (simp add: sum_list_map_Suc)
  finally have "2 * sum_list (map (\<lambda>i. Suc n - Suc i) [0..<Suc n]) = n * (n - 1) + 2 * n"
    using Suc.IH by simp
  also have "\<dots> = Suc n * (Suc n - 1)" by (cases n) simp_all
  finally show ?case .
qed

lemma length_pairs: "length (pairs n) = n * (n - 1) div 2"
proof -
  have "length (pairs n) = sum_list (map (\<lambda>i. n - Suc i) [0..<n])"
    by (simp add: pairs_def length_concat comp_def)
  then show ?thesis using sum_list_gaps [of n] by simp
qed

lemma set_pairs: "set (pairs n) = {(i, j). i < j \<and> j < n}"
proof (rule set_eqI)
  fix p :: "nat \<times> nat"
  obtain a b where p: "p = (a, b)" by (cases p)
  have "(a, b) \<in> set (pairs n)" if "a < b" "b < n"
    by (simp add: pairs_def) (rule bexI [of _ a], use that in auto)
  moreover have "a < b \<and> b < n" if "(a, b) \<in> set (pairs n)"
    using that by (auto simp: pairs_def)
  ultimately show "p \<in> set (pairs n) \<longleftrightarrow> p \<in> {(i, j). i < j \<and> j < n}" by (auto simp: p)
qed

lemma distinct_pairs: "distinct (pairs n)"
  unfolding pairs_def
proof (rule distinct_concat)
  have "inj_on (\<lambda>i. map (Pair i) [i + 1..<n]) (set [0..<n])"
  proof (rule inj_onI)
    fix x y
    assume x: "x \<in> set [0..<n]" and y: "y \<in> set [0..<n]"
      and e: "map (Pair x) [x + 1..<n] = map (Pair y) [y + 1..<n]"
    from e have "length (map (Pair x) [x + 1..<n]) = length (map (Pair y) [y + 1..<n])" by simp
    with x y show "x = y" by simp
  qed
  then show "distinct (map (\<lambda>i. map (Pair i) [i + 1..<n]) [0..<n])"
    by (simp add: distinct_map)
next
  fix ys assume "ys \<in> set (map (\<lambda>i. map (Pair i) [i + 1..<n]) [0..<n])"
  then show "distinct ys" by (auto simp: distinct_map inj_on_def)
next
  fix ys zs
  assume "ys \<in> set (map (\<lambda>i. map (Pair i) [i + 1..<n]) [0..<n])"
    "zs \<in> set (map (\<lambda>i. map (Pair i) [i + 1..<n]) [0..<n])" "ys \<noteq> zs"
  then show "set ys \<inter> set zs = {}" by auto
qed

text \<open>
  A distance computed from finite coordinates is a number that is not negative, or
  \<open>Infinity\<close> when a step overflows; it is never NaN.
\<close>

lemma dbl_nonneg: "0 \<le> a \<Longrightarrow> dbl a = PInf \<or> (\<exists>r\<ge>0. dbl a = Fin r)"
  using round_to_cases [of 53 "- 1022" 1024 a] by (auto simp: dbl_def)

lemma dbl_not_NaN: "dbl a \<noteq> NaN"
  using round_to_cases [of 53 "- 1022" 1024 a] by (auto simp: dbl_def)

lemma pow2_nonneg:
  assumes "x \<noteq> NaN"
  shows "Math_pow2 x = PInf \<or> (\<exists>r\<ge>0. Math_pow2 x = Fin r)"
proof (cases x)
  case (Fin a)
  then show ?thesis using dbl_nonneg [of "a * a"] by (simp add: Math_pow2_def)
qed (use assms in \<open>simp_all add: Math_pow2_def inf_of_def\<close>)

lemma plus_nonneg:
  assumes "x = PInf \<or> (\<exists>r\<ge>0. x = Fin r)" "y = PInf \<or> (\<exists>r\<ge>0. y = Fin r)"
  shows "x + y = PInf \<or> (\<exists>r\<ge>0. x + y = Fin r)"
proof (cases "x = PInf \<or> y = PInf")
  case True
  then show ?thesis using assms by auto
next
  case False
  with assms obtain a b where "x = Fin a" "0 \<le> a" "y = Fin b" "0 \<le> b" by auto
  then show ?thesis using dbl_nonneg [of "a + b"] by simp
qed

lemma sqrt_le_PInf:
  assumes "x = PInf \<or> (\<exists>r\<ge>0. x = Fin r)"
  shows "Math_sqrt x \<le> PInf"
proof -
  have "dbl (sqrt r) \<le> PInf" if "0 \<le> r" for r
    using dbl_nonneg [of "sqrt r"] that by auto
  then show ?thesis using assms by auto
qed

lemma js_distance_le_PInf:
  assumes "i * 3 + 2 < length rs" "j * 3 + 2 < length rs"
  shows "js_distance (map Fin rs) i j \<le> PInf"
proof -
  have r: "rd (map Fin rs) (i * 3) = Fin (rs ! (i * 3))"
    "rd (map Fin rs) (i * 3 + 1) = Fin (rs ! (i * 3 + 1))"
    "rd (map Fin rs) (i * 3 + 2) = Fin (rs ! (i * 3 + 2))"
    "rd (map Fin rs) (j * 3) = Fin (rs ! (j * 3))"
    "rd (map Fin rs) (j * 3 + 1) = Fin (rs ! (j * 3 + 1))"
    "rd (map Fin rs) (j * 3 + 2) = Fin (rs ! (j * 3 + 2))"
    using assms by (simp_all add: rd_def)
  have p: "Math_pow2 (Fin a - Fin b) = PInf \<or> (\<exists>r\<ge>0. Math_pow2 (Fin a - Fin b) = Fin r)" for a b
    by (rule pow2_nonneg) (simp add: dbl_not_NaN)
  show ?thesis
    unfolding js_distance_def r
    by (intro sqrt_le_PInf plus_nonneg p)
qed

lemma near_pairs_PInf:
  assumes "n * 3 \<le> length rs"
  shows "near_pairs (map Fin rs) n PInf = pairs n"
proof -
  have "js_distance (map Fin rs) i j \<le> PInf" if "(i, j) \<in> set (pairs n)" for i j
  proof -
    from that have "i < n" "j < n" by (auto simp: set_pairs)
    with assms have "i * 3 + 2 < length rs" "j * 3 + 2 < length rs" by simp_all
    then show ?thesis by (rule js_distance_le_PInf)
  qed
  then show ?thesis unfolding near_pairs_def by (intro filter_True) auto
qed

lemma concat_segments_Nil: "concat (map (segment ps) xs) = [] \<longleftrightarrow> xs = []"
  by (cases xs) auto

lemma or_default_given [simp]: "or_default (given v d) d = or_default v d"
  by (cases v) simp_all

text \<open>Distances of the examples: the sum \<open>1 + 2 ^ -60\<close> is rounded to \<open>1\<close>.\<close>

lemma dbl_near_1:
  assumes "1 \<le> a" "a - 1 < 1 / 2 ^ 53"
  shows "dbl a = Fin 1"
  unfolding dbl_def
proof (rule round_to_point [where M = "2 ^ 52" and K = "- 52"])
  show "1 = real_of_int (2 ^ 52) * 2 powr real_of_int (- 52)"
    by (simp add: powr_minus powr_realpow [symmetric] del: powr_numeral)
  show "2 powr real_of_int (- 52 + int 53 - 1) \<le> \<bar>a\<bar>" using assms(1) by simp
  have "a < 2" using assms(2) by (simp add: field_simps)
  then show "\<bar>a\<bar> < 2 powr real_of_int (- 52 + int 53)" using assms(1) by simp
  have "(2::real) powr real_of_int (- 52) / 2 = 1 / 2 ^ 53"
    by (simp add: powr_minus powr_realpow [symmetric] field_simps del: powr_numeral)
  then show "\<bar>a - 1\<bar> < 2 powr real_of_int (- 52) / 2" using assms by simp
  show "- 1022 - int 53 + 1 \<le> - 52" by simp
  show "\<bar>1::real\<bar> < 2 powr real_of_int 1024" by simp
qed

lemmas dbl_half = dbl_dyadic [of 1 1, simplified]
lemmas dbl_quarter = dbl_dyadic [of 1 2, simplified]
lemmas f32_half = f32_dyadic [of 1 1, simplified]
lemmas dbl_2_30 = dbl_dyadic [of 1 30, simplified]
lemmas dbl_2_60 = dbl_dyadic [of 1 60, simplified]
lemmas f32_2_30 = f32_dyadic [of 1 30, simplified]

lemma js_distance_rounded:
  "js_distance [Fin 0, Fin 0, Fin 0, Fin 1, Fin (1 / 2 ^ 30), Fin 0] 0 1 = Fin 1"
proof -
  have "dbl (1 + 1 / 2 ^ 60) = Fin 1" by (rule dbl_near_1) simp_all
  then show ?thesis
    by (simp add: js_distance_def rd_def Math_pow2_def dbl_2_30 dbl_2_60)
qed

lemma js_distance_half:
  "js_distance [Fin 0, Fin 0, Fin 0, Fin (1 / 2), Fin 0, Fin 0] 0 1 = Fin (1 / 2)"
proof -
  have s: "sqrt (1 / 4) = 1 / 2" by (simp add: real_sqrt_divide)
  show ?thesis
    by (simp add: js_distance_def rd_def Math_pow2_def dbl_half dbl_quarter s)
qed

text \<open>
  C3 (as amended). In a system constructed with \<open>connected\<close> on, the connection builder
  emits, in the order of the loops and as singles, the segment of exactly those index
  pairs \<open>(i, j)\<close>, \<open>i < j\<close>, whose distance, as the source computes it in doubles, is at
  most the threshold, and the threshold is \<open>connectionDistance || 1.0\<close>: the distance
  given, or \<open>1\<close> when none or \<open>0\<close> is given. The pairs are all the \<open>(i, j)\<close> with
  \<open>i < j < count\<close>, each once; over a buffer of finite coordinates that holds all
  \<open>count\<close> particles, every pair is within the threshold \<open>Infinity\<close>, which makes
  \<open>count * (count - 1) / 2\<close> segments.
\<close>

theorem connections_are_near_pairs:
  assumes "construct d opts = Inr s" and "flag (connected opts)"
  shows "connections s =
           (if near_pairs (positions d) (data_count d)
                 (or_default (connectionDistance opts) (Fin 1)) = []
            then None
            else Some (map fround (concat (map (segment (positions d))
                   (near_pairs (positions d) (data_count d)
                      (or_default (connectionDistance opts) (Fin 1)))))))
       \<and> set (pairs (data_count d)) = {(i, j). i < j \<and> j < data_count d}
       \<and> distinct (pairs (data_count d))
       \<and> length (pairs (data_count d)) = data_count d * (data_count d - 1) div 2
       \<and> (positions d = map Fin rs \<and> data_count d * 3 \<le> length rs \<longrightarrow>
            near_pairs (positions d) (data_count d) PInf = pairs (data_count d))"
proof -
  let ?s0 = "\<lparr>data = d, options = merge_options opts, animatedPositions = positions d,
               time = Fin 0, connections = None\<rparr>"
  have s: "s = initConnections ?s0"
    using assms(1,2) by (auto simp: construct_def Let_def merge_options_def split: sum.splits)
  have m: "or_default (connectionDistance (merge_options opts)) (Fin 1)
           = or_default (connectionDistance opts) (Fin 1)"
    by (simp add: merge_options_def)
  have f: "flag (connected (merge_options opts))" using assms(2) by (simp add: merge_options_def)
  have "connections s =
           (if near_pairs (positions d) (data_count d)
                 (or_default (connectionDistance opts) (Fin 1)) = []
            then None
            else Some (map fround (concat (map (segment (positions d))
                   (near_pairs (positions d) (data_count d)
                      (or_default (connectionDistance opts) (Fin 1)))))))"
    unfolding s initConnections_def Let_def
    using f by (simp add: m connect_loop_near_pairs concat_segments_Nil
        del: concat_eq_Nil_conv)
  moreover have "near_pairs (positions d) (data_count d) PInf = pairs (data_count d)"
    if "positions d = map Fin rs" "data_count d * 3 \<le> length rs"
    unfolding that(1) using that(2) by (rule near_pairs_PInf)
  ultimately show ?thesis
    using set_pairs distinct_pairs length_pairs by blast
qed

theorem connections_are_near_pairs_witness:
  "map_sum id connections
     (construct \<lparr>positions = map Fin [0, 0, 0, 1, 1 / 2 ^ 30, 0],
                 colors = [Fin 1, Fin 1, Fin 1, Fin 1, Fin 1, Fin 1],
                 sizes = [Fin 1, Fin 1], data_count = 2\<rparr>
        \<lparr>animated = None, animationSpeed = None, animationRadius = None, connected = Some True,
         connectionDistance = None, interactive = None, mouseInfluence = None,
         mouseRadius = None\<rparr>)
   = Inr (Some [Fin 0, Fin 0, Fin 0, Fin 1, Fin (1 / 2 ^ 30), Fin 0])
   \<and> js_distance (map Fin [0, 0, 0, 1, 1 / 2 ^ 30, 0]) 0 1 = Fin 1
   \<and> near_pairs (map Fin [0, 0, 0, 1, 1 / 2 ^ 30, 0]) 2 (Fin 1) = [(0, 1)]
   \<and> near_pairs (map Fin [0, 0, 0, 1, 1 / 2 ^ 30, 0]) 2 PInf = [(0, 1)]
   \<and> length (pairs 2) = 1"
proof -
  let ?rs = "[0, 0, 0, 1, 1 / 2 ^ 30, 0] :: real list"
  let ?d = "\<lparr>positions = map Fin ?rs,
                 colors = [Fin 1, Fin 1, Fin 1, Fin 1, Fin 1, Fin 1],
                 sizes = [Fin 1, Fin 1], data_count = 2\<rparr>"
  let ?o = "\<lparr>animated = None, animationSpeed = None, animationRadius = None,
         connected = Some True, connectionDistance = None, interactive = None,
         mouseInfluence = None, mouseRadius = None\<rparr>"
  let ?s = "initConnections \<lparr>data = ?d, options = merge_options ?o,
               animatedPositions = positions ?d, time = Fin 0, connections = None\<rparr>"
  have c: "construct ?d ?o = Inr ?s"
    by (simp add: construct_def initGeometry_def merge_options_def)
  have f: "flag (connected ?o)" by simp
  have n: "pairs 2 = [(0, 1)]" by (simp add: pairs_def numeral_2_eq_2)
  have dist: "js_distance (map Fin ?rs) 0 1 = Fin 1"
    using js_distance_rounded by simp
  have np: "near_pairs (map Fin ?rs) 2 (Fin 1) = [(0, 1)]"
    unfolding near_pairs_def n using dist by simp
  note t = connections_are_near_pairs [OF c f, of ?rs]
  have inf: "near_pairs (map Fin ?rs) 2 PInf = [(0, 1)]"
    using t n by simp
  have k: "connections ?s = Some [Fin 0, Fin 0, Fin 0, Fin 1, Fin (1 / 2 ^ 30), Fin 0]"
    using t np by (simp add: f32_2_30 rd_def)
  have "map_sum id connections (construct ?d ?o) = Inr (connections ?s)"
    unfolding c by simp
  with k np inf n dist show ?thesis by simp
qed

text \<open>
  C3 as stated fails for \<open>maxDistance = 0\<close>: with \<open>connectionDistance = 0\<close> the threshold
  is \<open>1\<close>, and two distinct points at the distance \<open>0.5\<close> are connected.
\<close>

theorem connections_zero_distance_counterexample:
  "map_sum id connections
     (construct \<lparr>positions = [Fin 0, Fin 0, Fin 0, Fin (1 / 2), Fin 0, Fin 0],
                 colors = [Fin 1, Fin 1, Fin 1, Fin 1, Fin 1, Fin 1],
                 sizes = [Fin 1, Fin 1], data_count = 2\<rparr>
        \<lparr>animated = None, animationSpeed = None, animationRadius = None, connected = Some True,
         connectionDistance = Some (Fin 0), interactive = None, mouseInfluence = None,
         mouseRadius = None\<rparr>)
   = Inr (Some [Fin 0, Fin 0, Fin 0, Fin (1 / 2), Fin 0, Fin 0])"
proof -
  have n: "pairs 2 = [(0, 1)]" by (simp add: pairs_def numeral_2_eq_2)
  have "connect_loop [Fin 0, Fin 0, Fin 0, Fin (1 / 2), Fin 0, Fin 0] 2 (Fin 1)
        = [Fin 0, Fin 0, Fin 0, Fin (1 / 2), Fin 0, Fin 0]"
    unfolding connect_loop_near_pairs near_pairs_def n
    by (simp add: js_distance_half [unfolded One_nat_def] rd_def)
  then show ?thesis
    by (simp add: construct_def initGeometry_def merge_options_def initConnections_def Let_def
        f32_half)
qed

subsection \<open>The pointer on a particle\<close>

text \<open>
  C8. When a particle lies exactly on the pointer, the distance is \<open>0\<close>, the source
  divides the zero offset by it, and the working position of the particle becomes NaN in
  all three coordinates: no direction is picked for this case.
\<close>

theorem update_zero_distance_is_NaN:
  "animatedPositions
     (update \<lparr>data = \<lparr>positions = [Fin x, Fin y, Fin z], colors = c, sizes = sz, data_count = 1\<rparr>,
              options = merge_options
                \<lparr>animated = None, animationSpeed = None, animationRadius = None,
                 connected = None, connectionDistance = None, interactive = Some True,
                 mouseInfluence = None, mouseRadius = None\<rparr>,
              animatedPositions = [Fin x, Fin y, Fin z], time = t, connections = None\<rparr>
        deltaTime (Some (Fin x, Fin y, Fin z)))
   = [NaN, NaN, NaN]"
  by (simp add: update_def update_body_def merge_options_def Let_def rd_def store3_def
      Math_pow2_def inf_of_def)

end
